theory Spec2Isabelle
  imports Complex_Main "HOL-Library.Product_Lexorder" "HOL-Library.Multiset"
    "HOL-Library.Log_Nat"
begin

section \<open>Python strings\<close>

text \<open>
  A Python \<open>str\<close> is modelled as a \<open>string\<close> whose characters are the code points
  below 256. \<open>isspace\<close> lists the code points in that range for which Python's
  \<open>str.isspace\<close> holds: tab, line feed, vertical tab, form feed, carriage return,
  the four separators 28 to 31, space, next-line (133) and no-break space (160).
\<close>

definition isspace :: "char \<Rightarrow> bool" where
  "isspace c \<longleftrightarrow> of_char c \<in> {9, 10, 11, 12, 13, 28, 29, 30, 31, 32, 133, 160 :: nat}"

text \<open>
  \<open>s.split()\<close> with no argument: the maximal runs of non-whitespace characters, in
  order. \<open>cur\<close> is the word being read.
\<close>

fun split_acc :: "string \<Rightarrow> string \<Rightarrow> string list" where
  "split_acc cur [] = (if cur = [] then [] else [cur])"
| "split_acc cur (c # cs) =
     (if isspace c then (if cur = [] then split_acc [] cs else cur # split_acc [] cs)
      else split_acc (cur @ [c]) cs)"

definition str_split :: "string \<Rightarrow> string list" where
  "str_split s = split_acc [] s"

text \<open>\<open>s.startswith(p)\<close>.\<close>

definition startswith :: "string \<Rightarrow> string \<Rightarrow> bool" where
  "startswith s p \<longleftrightarrow> take (length p) s = p"

text \<open>\<open>s.rstrip()\<close>: trailing whitespace removed.\<close>

definition rstrip :: "string \<Rightarrow> string" where
  "rstrip s = rev (dropWhile isspace (rev s))"

text \<open>\<open>sep.join(parts)\<close>.\<close>

fun join :: "string \<Rightarrow> string list \<Rightarrow> string" where
  "join sep [] = []"
| "join sep [p] = p"
| "join sep (p # q # ps) = p @ sep @ join sep (q # ps)"

section \<open>The standard library's difflib (Python 3.11)\<close>

text \<open>
  \<open>calculate_edit_distance\<close> and \<open>highlight_differences\<close> call
  \<open>difflib.Differ().compare\<close>. The functions below follow \<open>difflib.py\<close> line by line.
  Both matchers the program creates have \<open>isjunk = None\<close> (\<open>Differ()\<close> is built with
  \<open>linejunk = None\<close> and \<open>charjunk = None\<close>), so the junk set \<open>bjunk\<close> is empty and the
  two loops of \<open>find_longest_match\<close> that extend a match over junk never iterate; they
  are left out. \<open>autojunk\<close> keeps its default \<open>True\<close>.
\<close>

type_synonym match = "nat \<times> nat \<times> nat"

text \<open>\<open>__chain_b\<close>: \<open>b2j[elt]\<close> lists the positions of \<open>elt\<close> in \<open>b\<close>, ascending.\<close>

definition b2j_all :: "'a list \<Rightarrow> 'a \<Rightarrow> nat list" where
  "b2j_all b elt = filter (\<lambda>i. b ! i = elt) [0..<length b]"

text \<open>
  The popular elements (more than \<open>n // 100 + 1\<close> occurrences when \<open>n \<ge> 200\<close>) are
  deleted from \<open>b2j\<close>; \<open>b2j.get(elt, [])\<close> is then the empty list.
\<close>

definition chain_b :: "'a list \<Rightarrow> 'a \<Rightarrow> nat list" where
  "chain_b b elt =
     (let idxs = b2j_all b elt; n = length b
      in if n \<ge> 200 \<and> length idxs > n div 100 + 1 then [] else idxs)"

text \<open>
  The inner loop of \<open>find_longest_match\<close> over \<open>b2j.get(a[i], [])\<close>. The dictionaries
  \<open>j2len\<close> and \<open>newj2len\<close> are only read through \<open>get(j, 0)\<close>, so each is a total
  function with value 0 at the absent keys. \<open>j2len.get(j - 1, 0)\<close> at \<open>j = 0\<close> reads
  the key \<open>-1\<close>, which is never stored. \<open>i - k + 1\<close> is written \<open>i + 1 - k\<close>: \<open>k\<close> is
  at most \<open>i + 1 - alo\<close> (lemma \<open>flm_inner_step\<close>), so nothing is truncated.
\<close>

fun flm_inner :: "(nat \<Rightarrow> nat) \<Rightarrow> nat \<Rightarrow> nat \<Rightarrow> nat \<Rightarrow> nat list \<Rightarrow> (nat \<Rightarrow> nat) \<Rightarrow> match
    \<Rightarrow> (nat \<Rightarrow> nat) \<times> match" where
  "flm_inner j2len i blo bhi [] newj2len best = (newj2len, best)"
| "flm_inner j2len i blo bhi (j # js) newj2len (besti, bestj, bestsize) =
     (if j < blo then flm_inner j2len i blo bhi js newj2len (besti, bestj, bestsize)
      else if j \<ge> bhi then (newj2len, (besti, bestj, bestsize))
      else
        let k = (if j = 0 then 0 else j2len (j - 1)) + 1
        in if k > bestsize
           then flm_inner j2len i blo bhi js (newj2len(j := k)) (i + 1 - k, j + 1 - k, k)
           else flm_inner j2len i blo bhi js (newj2len(j := k)) (besti, bestj, bestsize))"

text \<open>The outer loop \<open>for i in range(alo, ahi)\<close>.\<close>

fun flm_outer :: "'a list \<Rightarrow> ('a \<Rightarrow> nat list) \<Rightarrow> nat \<Rightarrow> nat \<Rightarrow> nat list \<Rightarrow> (nat \<Rightarrow> nat) \<Rightarrow> match
    \<Rightarrow> match" where
  "flm_outer a b2j blo bhi [] j2len best = best"
| "flm_outer a b2j blo bhi (i # is) j2len best =
     (case flm_inner j2len i blo bhi (b2j (a ! i)) (\<lambda>_. 0) best of
        (newj2len, best') \<Rightarrow> flm_outer a b2j blo bhi is newj2len best')"

text \<open>The two loops that extend the best match by equal elements on each end.\<close>

function extend_left :: "'a list \<Rightarrow> 'a list \<Rightarrow> nat \<Rightarrow> nat \<Rightarrow> match \<Rightarrow> match" where
  "extend_left a b alo blo (besti, bestj, bestsize) =
     (if besti > alo \<and> bestj > blo \<and> a ! (besti - 1) = b ! (bestj - 1)
      then extend_left a b alo blo (besti - 1, bestj - 1, bestsize + 1)
      else (besti, bestj, bestsize))"
  by pat_completeness auto
termination
  by (relation "measure (\<lambda>(a, b, alo, blo, besti, bestj, bestsize). besti)") auto

function extend_right :: "'a list \<Rightarrow> 'a list \<Rightarrow> nat \<Rightarrow> nat \<Rightarrow> match \<Rightarrow> match" where
  "extend_right a b ahi bhi (besti, bestj, bestsize) =
     (if besti + bestsize < ahi \<and> bestj + bestsize < bhi
         \<and> a ! (besti + bestsize) = b ! (bestj + bestsize)
      then extend_right a b ahi bhi (besti, bestj, bestsize + 1)
      else (besti, bestj, bestsize))"
  by pat_completeness auto
termination
  by (relation "measure (\<lambda>(a, b, ahi, bhi, besti, bestj, bestsize). ahi - (besti + bestsize))") auto

definition find_longest_match :: "'a list \<Rightarrow> 'a list \<Rightarrow> nat \<Rightarrow> nat \<Rightarrow> nat \<Rightarrow> nat \<Rightarrow> match" where
  "find_longest_match a b alo ahi blo bhi =
     extend_right a b ahi bhi
       (extend_left a b alo blo
          (flm_outer a (chain_b b) blo bhi [alo..<ahi] (\<lambda>_. 0) (alo, blo, 0)))"

declare extend_left.simps [simp del] extend_right.simps [simp del]

subsection \<open>What \<open>find_longest_match\<close> returns\<close>

text \<open>
  \<open>good_match\<close>: the block lies inside both ranges, is \<open>(alo, blo, 0)\<close> when empty, and
  its elements are pairwise equal. \<open>j2len_ok\<close> is the loop invariant of the dictionary:
  \<open>j2len[j]\<close> is the length of a run of equal elements ending at \<open>a[i-1]\<close>, \<open>b[j]\<close>.
\<close>

definition good_match :: "'a list \<Rightarrow> 'a list \<Rightarrow> nat \<Rightarrow> nat \<Rightarrow> nat \<Rightarrow> nat \<Rightarrow> match \<Rightarrow> bool" where
  "good_match a b alo ahi blo bhi m =
     (case m of (i, j, k) \<Rightarrow>
        alo \<le> i \<and> blo \<le> j
        \<and> (if k = 0 then i = alo \<and> j = blo else i + k \<le> ahi \<and> j + k \<le> bhi)
        \<and> (\<forall>d<k. a ! (i + d) = b ! (j + d)))"

definition j2len_ok :: "'a list \<Rightarrow> 'a list \<Rightarrow> nat \<Rightarrow> nat \<Rightarrow> nat \<Rightarrow> nat \<Rightarrow> (nat \<Rightarrow> nat) \<Rightarrow> bool" where
  "j2len_ok a b alo blo bhi i f =
     (\<forall>j. f j \<le> i - alo
          \<and> (f j > 0 \<longrightarrow> blo \<le> j \<and> j < bhi \<and> f j \<le> j + 1 - blo
                \<and> (\<forall>d < f j. a ! (i - 1 - d) = b ! (j - d))))"

lemma good_match_mono:
  "good_match a b alo ahi blo bhi m \<Longrightarrow> ahi \<le> ahi' \<Longrightarrow> good_match a b alo ahi' blo bhi m"
  by (auto simp: good_match_def split: if_splits)

lemma flm_inner_step:
  assumes ok: "j2len_ok a b alo blo bhi i j2len" and i: "alo \<le> i"
    and j: "blo \<le> j" "j < bhi" and eq: "b ! j = a ! i"
    and k: "k = (if j = 0 then 0 else j2len (j - 1)) + 1"
  shows "k \<le> Suc i - alo" "k \<le> j + 1 - blo" "\<forall>d<k. a ! (i - d) = b ! (j - d)"
proof -
  show k1: "k \<le> Suc i - alo"
  proof -
    have "j2len (j - 1) \<le> i - alo" using ok unfolding j2len_ok_def by blast
    then show ?thesis using i k by (auto split: if_splits)
  qed
  show k2: "k \<le> j + 1 - blo"
  proof (cases "j = 0 \<or> j2len (j - 1) = 0")
    case True
    then show ?thesis using k j by auto
  next
    case False
    then have "j2len (j - 1) \<le> (j - 1) + 1 - blo" using ok unfolding j2len_ok_def by blast
    then show ?thesis using k False j by auto
  qed
  show "\<forall>d<k. a ! (i - d) = b ! (j - d)"
  proof (intro allI impI)
    fix d assume d: "d < k"
    show "a ! (i - d) = b ! (j - d)"
    proof (cases d)
      case 0
      then show ?thesis using eq by simp
    next
      case (Suc d')
      then have nz: "j \<noteq> 0" "d' < j2len (j - 1)" using d k by (auto split: if_splits)
      moreover have "0 < j2len (j - 1) \<longrightarrow> (\<forall>d < j2len (j - 1). a ! (i - 1 - d) = b ! (j - 1 - d))"
        using ok unfolding j2len_ok_def by blast
      ultimately have "a ! (i - 1 - d') = b ! (j - 1 - d')" by auto
      then show ?thesis using Suc by simp
    qed
  qed
qed

lemma flm_inner_inv:
  assumes "j2len_ok a b alo blo bhi i j2len" "alo \<le> i"
    and "\<forall>j\<in>set js. b ! j = a ! i"
    and "j2len_ok a b alo blo bhi (Suc i) newj2len"
    and "good_match a b alo (Suc i) blo bhi best"
    and "flm_inner j2len i blo bhi js newj2len best = (nj, best')"
  shows "j2len_ok a b alo blo bhi (Suc i) nj \<and> good_match a b alo (Suc i) blo bhi best'"
  using assms
proof (induction js arbitrary: newj2len best)
  case Nil
  then show ?case by simp
next
  case (Cons j js)
  obtain besti bestj bestsize where best: "best = (besti, bestj, bestsize)"
    by (cases best) auto
  show ?case
  proof (cases "j < blo")
    case True
    then show ?thesis using Cons best by simp
  next
    case nlo: False
    show ?thesis
    proof (cases "j \<ge> bhi")
      case True
      then show ?thesis using Cons.prems nlo best by simp
    next
      case False
      define k where "k = (if j = 0 then 0 else j2len (j - 1)) + 1"
      have jr: "blo \<le> j" "j < bhi" using nlo False by auto
      have eq: "b ! j = a ! i" using Cons.prems(3) by simp
      note st = flm_inner_step[OF Cons.prems(1) Cons.prems(2) jr eq k_def]
      have kpos: "k > 0" by (simp add: k_def)
      have nj_ok: "j2len_ok a b alo blo bhi (Suc i) (newj2len(j := k))"
        unfolding j2len_ok_def
      proof (intro allI)
        fix j'
        show "(newj2len(j := k)) j' \<le> Suc i - alo \<and>
          (0 < (newj2len(j := k)) j' \<longrightarrow> blo \<le> j' \<and> j' < bhi \<and> (newj2len(j := k)) j' \<le> j' + 1 - blo \<and>
            (\<forall>d<(newj2len(j := k)) j'. a ! (Suc i - 1 - d) = b ! (j' - d)))"
        proof (cases "j' = j")
          case True
          then show ?thesis using st jr by simp
        next
          case False
          then show ?thesis using Cons.prems(4) unfolding j2len_ok_def by simp
        qed
      qed
      have m: "a ! (i + 1 - k + d) = b ! (j + 1 - k + d)" if d: "d < k" for d
      proof -
        have "k - 1 - d < k" using d by arith
        then have h: "a ! (i - (k - 1 - d)) = b ! (j - (k - 1 - d))" using st(3) by blast
        have e1: "i - (k - 1 - d) = i + 1 - k + d" using st(1) d by arith
        have e2: "j - (k - 1 - d) = j + 1 - k + d" using st(2) d by arith
        show ?thesis using h unfolding e1 e2 .
      qed
      have b1: "alo \<le> i + 1 - k" "blo \<le> j + 1 - k" "i + 1 - k + k \<le> Suc i" "j + 1 - k + k \<le> bhi"
        using st(1,2) kpos jr Cons.prems(2) by arith+
      have new_good: "good_match a b alo (Suc i) blo bhi (i + 1 - k, j + 1 - k, k)"
        unfolding good_match_def using b1 kpos m by simp
      show ?thesis
      proof (cases "k > bestsize")
        case True
        have "flm_inner j2len i blo bhi js (newj2len(j := k)) (i + 1 - k, j + 1 - k, k) = (nj, best')"
          using Cons.prems(6) nlo False True best by (simp add: k_def Let_def)
        from Cons.IH[OF Cons.prems(1,2) _ nj_ok new_good this] Cons.prems(3)
        show ?thesis by simp
      next
        case nb: False
        have "flm_inner j2len i blo bhi js (newj2len(j := k)) best = (nj, best')"
          using Cons.prems(6) nlo False nb best by (simp add: k_def Let_def)
        from Cons.IH[OF Cons.prems(1,2) _ nj_ok Cons.prems(5) this] Cons.prems(3)
        show ?thesis by simp
      qed
    qed
  qed
qed


lemma flm_outer_inv:
  assumes "j2len_ok a b alo blo bhi i j2len" "alo \<le> i" "i \<le> ahi"
    and "good_match a b alo i blo bhi best"
    and "\<forall>x. \<forall>j\<in>set (b2j x). b ! j = x"
  shows "good_match a b alo ahi blo bhi (flm_outer a b2j blo bhi [i..<ahi] j2len best)"
  using assms
proof (induction "ahi - i" arbitrary: i j2len best)
  case 0
  then show ?case by simp
next
  case (Suc n)
  then have lt: "i < ahi" by simp
  then have upt: "[i..<ahi] = i # [Suc i..<ahi]" by (simp add: upt_conv_Cons)
  obtain nj best' where inner:
    "flm_inner j2len i blo bhi (b2j (a ! i)) (\<lambda>_. 0) best = (nj, best')"
    by (cases "flm_inner j2len i blo bhi (b2j (a ! i)) (\<lambda>_. 0) best") auto
  have z: "j2len_ok a b alo blo bhi (Suc i) (\<lambda>_. 0)" by (simp add: j2len_ok_def)
  have g: "good_match a b alo (Suc i) blo bhi best"
    using good_match_mono[OF Suc.prems(4)] by simp
  have el: "\<forall>j\<in>set (b2j (a ! i)). b ! j = a ! i" using Suc.prems(5) by blast
  from flm_inner_inv[OF Suc.prems(1) Suc.prems(2) el z g inner]
  have r: "j2len_ok a b alo blo bhi (Suc i) nj" "good_match a b alo (Suc i) blo bhi best'"
    by auto
  have "good_match a b alo ahi blo bhi (flm_outer a b2j blo bhi [Suc i..<ahi] nj best')"
    using Suc.hyps(1)[of "Suc i" nj best'] Suc.hyps(2) r Suc.prems(2,5) lt by simp
  then show ?case using upt inner by simp
qed

lemma chain_b_correct: "j \<in> set (chain_b b x) \<Longrightarrow> j < length b \<and> b ! j = x"
  by (auto simp: chain_b_def b2j_all_def Let_def split: if_splits)

lemma good_match_iff:
  "good_match a b alo ahi blo bhi (i, j, k) \<longleftrightarrow>
     alo \<le> i \<and> blo \<le> j \<and> (k = 0 \<longrightarrow> i = alo \<and> j = blo)
     \<and> (k \<noteq> 0 \<longrightarrow> i + k \<le> ahi \<and> j + k \<le> bhi)
     \<and> (\<forall>d<k. a ! (i + d) = b ! (j + d))"
  by (simp add: good_match_def)

lemma extend_left_good:
  "good_match a b alo ahi blo bhi m \<Longrightarrow> good_match a b alo ahi blo bhi (extend_left a b alo blo m)"
proof (induction a b alo blo m rule: extend_left.induct)
  case (1 a b alo blo besti bestj bestsize)
  note g = "1.prems"[unfolded good_match_iff]
  show ?case
  proof (cases "besti > alo \<and> bestj > blo \<and> a ! (besti - 1) = b ! (bestj - 1)")
    case True
    have nz: "bestsize \<noteq> 0" using True g by arith
    have m: "a ! (besti - 1 + d) = b ! (bestj - 1 + d)" if d: "d < bestsize + 1" for d
    proof (cases d)
      case 0
      then show ?thesis using True by simp
    next
      case (Suc d')
      then have h: "a ! (besti + d') = b ! (bestj + d')" using d g by simp
      have e1: "besti - 1 + d = besti + d'" using True Suc by arith
      have e2: "bestj - 1 + d = bestj + d'" using True Suc by arith
      show ?thesis using h unfolding e1 e2 .
    qed
    have ar: "alo \<le> besti - 1" "blo \<le> bestj - 1" "besti - 1 + (bestsize + 1) \<le> ahi"
      "bestj - 1 + (bestsize + 1) \<le> bhi"
      using True nz g by arith+
    have "good_match a b alo ahi blo bhi (besti - 1, bestj - 1, bestsize + 1)"
      unfolding good_match_iff using ar m by simp
    from "1.IH"[OF True this] show ?thesis
      by (subst extend_left.simps) (use True in simp)
  next
    case False
    then show ?thesis using "1.prems"
      by (subst extend_left.simps) auto
  qed
qed

lemma extend_right_good:
  "good_match a b alo ahi blo bhi m \<Longrightarrow> good_match a b alo ahi blo bhi (extend_right a b ahi bhi m)"
proof (induction a b ahi bhi m rule: extend_right.induct)
  case (1 a b ahi bhi besti bestj bestsize)
  note g = "1.prems"[unfolded good_match_iff]
  show ?case
  proof (cases "besti + bestsize < ahi \<and> bestj + bestsize < bhi
         \<and> a ! (besti + bestsize) = b ! (bestj + bestsize)")
    case True
    have m: "a ! (besti + d) = b ! (bestj + d)" if d: "d < bestsize + 1" for d
    proof (cases "d = bestsize")
      case True
      then show ?thesis using \<open>besti + bestsize < ahi \<and> bestj + bestsize < bhi
         \<and> a ! (besti + bestsize) = b ! (bestj + bestsize)\<close> by simp
    next
      case False
      then have "d < bestsize" using d by arith
      then show ?thesis using g by blast
    qed
    have ar: "alo \<le> besti" "blo \<le> bestj" "besti + (bestsize + 1) \<le> ahi"
      "bestj + (bestsize + 1) \<le> bhi"
      using True g by arith+
    have "good_match a b alo ahi blo bhi (besti, bestj, bestsize + 1)"
      unfolding good_match_iff using ar m by simp
    from "1.IH"[OF True this] show ?thesis
      by (subst extend_right.simps) (use True in simp)
  next
    case False
    then show ?thesis using "1.prems"
      by (subst extend_right.simps) auto
  qed
qed

lemma find_longest_match_good:
  "good_match a b alo ahi blo bhi (find_longest_match a b alo ahi blo bhi)"
proof -
  have init: "good_match a b alo alo blo bhi (alo, blo, 0)" by (simp add: good_match_def)
  have "good_match a b alo ahi blo bhi
          (flm_outer a (chain_b b) blo bhi [alo..<ahi] (\<lambda>_. 0) (alo, blo, 0))"
  proof (cases "alo \<le> ahi")
    case True
    show ?thesis
      by (rule flm_outer_inv[OF _ _ True init]) (auto simp: j2len_ok_def chain_b_correct)
  next
    case False
    then show ?thesis by (simp add: good_match_def)
  qed
  then show ?thesis unfolding find_longest_match_def
    by (intro extend_right_good extend_left_good)
qed

subsection \<open>\<open>get_matching_blocks\<close> and \<open>get_opcodes\<close>\<close>

text \<open>
  The loop \<open>while queue\<close>. \<open>queue.pop()\<close> takes the last element appended, so the list
  is a stack; its top is the head here.
\<close>

function matching_loop :: "'a list \<Rightarrow> 'a list \<Rightarrow> (nat \<times> nat \<times> nat \<times> nat) list \<Rightarrow> match list
    \<Rightarrow> match list" where
  "matching_loop a b [] matching_blocks = matching_blocks"
| "matching_loop a b ((alo, ahi, blo, bhi) # queue) matching_blocks =
     (case find_longest_match a b alo ahi blo bhi of
        (i, j, k) \<Rightarrow>
          if k \<noteq> 0
          then matching_loop a b
                 ((if i + k < ahi \<and> j + k < bhi then [(i + k, ahi, j + k, bhi)] else [])
                  @ (if alo < i \<and> blo < j then [(alo, i, blo, j)] else [])
                  @ queue)
                 (matching_blocks @ [(i, j, k)])
          else matching_loop a b queue matching_blocks)"
  by pat_completeness auto
termination
proof (relation "measure (\<lambda>(a, b, queue, blocks).
                   sum_list (map (\<lambda>(alo, ahi, blo, bhi). 2 * (ahi - alo) + 1) queue))",
       goal_cases)
  case 1
  show ?case by simp
next
  case (2 a b alo ahi blo bhi queue matching_blocks i y j k)
  have "good_match a b alo ahi blo bhi (i, j, k)"
    using find_longest_match_good[of a b alo ahi blo bhi] 2 by simp
  then have "alo \<le> i" "i + k \<le> ahi" using 2(3) by (simp_all add: good_match_iff)
  then show ?case using 2(3) by auto
next
  case 3
  show ?case by simp
qed

text \<open>
  The loop that merges adjacent blocks; \<open>(i1, j1, k1)\<close> is the block being grown.
\<close>

fun collapse :: "match list \<Rightarrow> match \<Rightarrow> match list \<Rightarrow> match list" where
  "collapse [] (i1, j1, k1) non_adjacent =
     (if k1 \<noteq> 0 then non_adjacent @ [(i1, j1, k1)] else non_adjacent)"
| "collapse ((i2, j2, k2) # rest) (i1, j1, k1) non_adjacent =
     (if i1 + k1 = i2 \<and> j1 + k1 = j2
      then collapse rest (i1, j1, k1 + k2) non_adjacent
      else collapse rest (i2, j2, k2)
             (if k1 \<noteq> 0 then non_adjacent @ [(i1, j1, k1)] else non_adjacent))"

text \<open>
  \<open>matching_blocks.sort()\<close> orders the triples lexicographically, which is the order of
  \<open>nat \<times> nat \<times> nat\<close>. The sentinel \<open>(la, lb, 0)\<close> ends the list.
\<close>

definition get_matching_blocks :: "'a list \<Rightarrow> 'a list \<Rightarrow> match list" where
  "get_matching_blocks a b =
     (let la = length a; lb = length b;
          matching_blocks = sort (matching_loop a b [(0, la, 0, lb)] [])
      in collapse matching_blocks (0, 0, 0) [] @ [(la, lb, 0)])"

datatype tag = Replace | Delete | Insert | Equal

type_synonym opcode = "tag \<times> nat \<times> nat \<times> nat \<times> nat"

fun opcodes_loop :: "match list \<Rightarrow> nat \<Rightarrow> nat \<Rightarrow> opcode list \<Rightarrow> opcode list" where
  "opcodes_loop [] i j answer = answer"
| "opcodes_loop ((ai, bj, sz) # rest) i j answer =
     (let answer1 =
            (if i < ai \<and> j < bj then answer @ [(Replace, i, ai, j, bj)]
             else if i < ai then answer @ [(Delete, i, ai, j, bj)]
             else if j < bj then answer @ [(Insert, i, ai, j, bj)]
             else answer);
          answer2 =
            (if sz \<noteq> 0 then answer1 @ [(Equal, ai, ai + sz, bj, bj + sz)] else answer1)
      in opcodes_loop rest (ai + sz) (bj + sz) answer2)"

definition get_opcodes :: "'a list \<Rightarrow> 'a list \<Rightarrow> opcode list" where
  "get_opcodes a b = opcodes_loop (get_matching_blocks a b) 0 0 []"

subsection \<open>Similarity ratios\<close>

text \<open>
  The ratios are Python floats, \<open>2.0 * matches / length\<close>. They are modelled as exact
  rationals; the thresholds 0.74 and 0.75 are the rationals of the same decimals.
\<close>

definition calculate_ratio :: "nat \<Rightarrow> nat \<Rightarrow> rat" where
  "calculate_ratio matches len = (if len \<noteq> 0 then 2 * of_nat matches / of_nat len else 1)"

definition ratio :: "'a list \<Rightarrow> 'a list \<Rightarrow> rat" where
  "ratio a b =
     calculate_ratio (sum_list (map (\<lambda>(i, j, k). k) (get_matching_blocks a b)))
       (length a + length b)"

text \<open>
  \<open>quick_ratio\<close>: \<open>fullbcount.get(elt, 0)\<close> is the number of occurrences of \<open>elt\<close> in \<open>b\<close>;
  \<open>avail\<close> is the dictionary of the loop.
\<close>

fun quick_ratio_loop :: "('a \<Rightarrow> nat) \<Rightarrow> 'a list \<Rightarrow> ('a \<rightharpoonup> int) \<Rightarrow> nat \<Rightarrow> nat" where
  "quick_ratio_loop fullbcount [] avail matches = matches"
| "quick_ratio_loop fullbcount (elt # rest) avail matches =
     (let numb = (case avail elt of Some n \<Rightarrow> n | None \<Rightarrow> int (fullbcount elt))
      in quick_ratio_loop fullbcount rest (avail(elt \<mapsto> numb - 1))
           (if numb > 0 then matches + 1 else matches))"

definition quick_ratio :: "'a list \<Rightarrow> 'a list \<Rightarrow> rat" where
  "quick_ratio a b =
     calculate_ratio (quick_ratio_loop (count_list b) a Map.empty 0) (length a + length b)"

definition real_quick_ratio :: "'a list \<Rightarrow> 'a list \<Rightarrow> rat" where
  "real_quick_ratio a b =
     (let la = length a; lb = length b in calculate_ratio (min la lb) (la + lb))"

subsection \<open>\<open>Differ\<close>\<close>

text \<open>\<open>_dump\<close>: the line \<open>'%s %s' % (tag, x[i])\<close> for each \<open>i\<close> of \<open>range(lo, hi)\<close>.\<close>

definition dump :: "char \<Rightarrow> string list \<Rightarrow> nat \<Rightarrow> nat \<Rightarrow> string list" where
  "dump tag x lo hi = map (\<lambda>i. tag # CHR '' '' # x ! i) [lo..<hi]"

definition plain_replace :: "string list \<Rightarrow> nat \<Rightarrow> nat \<Rightarrow> string list \<Rightarrow> nat \<Rightarrow> nat \<Rightarrow> string list" where
  "plain_replace a alo ahi b blo bhi =
     (if bhi - blo < ahi - alo
      then dump CHR ''+'' b blo bhi @ dump CHR ''-'' a alo ahi
      else dump CHR ''-'' a alo ahi @ dump CHR ''+'' b blo bhi)"

text \<open>
  The search of \<open>_fancy_replace\<close> for the pair of tokens to synchronise on. The state
  is \<open>best_ratio\<close>, \<open>(best_i, best_j)\<close> and \<open>(eqi, eqj)\<close>; the two pairs are \<open>None\<close> until
  first assigned. \<open>fancy_step\<close> is the body of the inner loop \<open>for i in range(alo, ahi)\<close>.
\<close>

type_synonym search_state = "rat \<times> (nat \<times> nat) option \<times> (nat \<times> nat) option"

definition fancy_step :: "string list \<Rightarrow> string list \<Rightarrow> nat \<Rightarrow> nat \<Rightarrow> search_state \<Rightarrow> search_state" where
  "fancy_step a b j i st =
     (case st of
        (best_ratio, best, eq) \<Rightarrow>
          let ai = a ! i; bj = b ! j
          in if ai = bj then (best_ratio, best, if eq = None then Some (i, j) else eq)
             else if real_quick_ratio ai bj > best_ratio \<and> quick_ratio ai bj > best_ratio
                     \<and> ratio ai bj > best_ratio
             then (ratio ai bj, Some (i, j), eq)
             else (best_ratio, best, eq))"

definition fancy_search :: "string list \<Rightarrow> nat \<Rightarrow> nat \<Rightarrow> string list \<Rightarrow> nat \<Rightarrow> nat \<Rightarrow> search_state" where
  "fancy_search a alo ahi b blo bhi =
     fold (\<lambda>j st. fold (fancy_step a b j) [alo..<ahi] st) [blo..<bhi] (74 / 100, None, None)"

text \<open>The loop over the character opcodes of the synchronised pair, building the tags.\<close>

fun intraline_tags :: "opcode list \<Rightarrow> string \<Rightarrow> string \<Rightarrow> string \<times> string" where
  "intraline_tags [] atags btags = (atags, btags)"
| "intraline_tags ((tg, ai1, ai2, bj1, bj2) # rest) atags btags =
     (let la = ai2 - ai1; lb = bj2 - bj1
      in case tg of
           Replace \<Rightarrow>
             intraline_tags rest (atags @ replicate la CHR ''^'') (btags @ replicate lb CHR ''^'')
         | Delete \<Rightarrow> intraline_tags rest (atags @ replicate la CHR ''-'') btags
         | Insert \<Rightarrow> intraline_tags rest atags (btags @ replicate lb CHR ''+'')
         | Equal \<Rightarrow>
             intraline_tags rest (atags @ replicate la CHR '' '') (btags @ replicate lb CHR '' ''))"

definition keep_original_ws :: "string \<Rightarrow> string \<Rightarrow> string" where
  "keep_original_ws s tag_s =
     map (\<lambda>(c, tag_c). if tag_c = CHR '' '' \<and> isspace c then c else tag_c) (zip s tag_s)"

definition qformat :: "string \<Rightarrow> string \<Rightarrow> string \<Rightarrow> string \<Rightarrow> string list" where
  "qformat aline bline atags btags =
     (let atags' = rstrip (keep_original_ws aline atags);
          btags' = rstrip (keep_original_ws bline btags)
      in [''- '' @ aline]
         @ (if atags' \<noteq> [] then [''? '' @ atags' @ [CHR 0x0A]] else [])
         @ [''+ '' @ bline]
         @ (if btags' \<noteq> [] then [''? '' @ btags' @ [CHR 0x0A]] else []))"

definition cutoff :: rat where
  "cutoff = 75 / 100"

text \<open>
  What the search returns: both pairs lie inside the two ranges, the pair \<open>(eqi, eqj)\<close>
  indexes equal tokens, and \<open>best_ratio\<close> is still 0.74 while \<open>(best_i, best_j)\<close> is
  unassigned.
\<close>

definition search_ok :: "string list \<Rightarrow> nat \<Rightarrow> nat \<Rightarrow> string list \<Rightarrow> nat \<Rightarrow> nat \<Rightarrow> search_state \<Rightarrow> bool" where
  "search_ok a alo ahi b blo bhi st =
     (case st of
        (best_ratio, best, eq) \<Rightarrow>
          (\<forall>p q. best = Some (p, q) \<longrightarrow> alo \<le> p \<and> p < ahi \<and> blo \<le> q \<and> q < bhi)
          \<and> (\<forall>p q. eq = Some (p, q) \<longrightarrow> alo \<le> p \<and> p < ahi \<and> blo \<le> q \<and> q < bhi \<and> a ! p = b ! q)
          \<and> (best = None \<longrightarrow> best_ratio = 74 / 100))"

lemma fancy_step_ok:
  assumes "alo \<le> i" "i < ahi" "blo \<le> j" "j < bhi" "search_ok a alo ahi b blo bhi st"
  shows "search_ok a alo ahi b blo bhi (fancy_step a b j i st)"
  using assms by (cases st) (auto simp: search_ok_def fancy_step_def Let_def split: if_splits)

lemma fancy_inner_ok:
  assumes "\<forall>i\<in>set is. alo \<le> i \<and> i < ahi" "blo \<le> j" "j < bhi"
    and "search_ok a alo ahi b blo bhi st"
  shows "search_ok a alo ahi b blo bhi (fold (fancy_step a b j) is st)"
  using assms
proof (induction "is" arbitrary: st)
  case Nil
  then show ?case by simp
next
  case (Cons i "is")
  have "search_ok a alo ahi b blo bhi (fancy_step a b j i st)"
    using Cons.prems by (intro fancy_step_ok) auto
  then show ?case using Cons by simp
qed

lemma fancy_outer_ok:
  assumes "\<forall>j\<in>set js. blo \<le> j \<and> j < bhi" "search_ok a alo ahi b blo bhi st"
  shows "search_ok a alo ahi b blo bhi
           (fold (\<lambda>j st. fold (fancy_step a b j) [alo..<ahi] st) js st)"
  using assms
proof (induction js arbitrary: st)
  case Nil
  then show ?case by simp
next
  case (Cons j js)
  have "search_ok a alo ahi b blo bhi (fold (fancy_step a b j) [alo..<ahi] st)"
    using Cons.prems by (intro fancy_inner_ok) auto
  then show ?case using Cons by simp
qed

lemma fancy_search_ok: "search_ok a alo ahi b blo bhi (fancy_search a alo ahi b blo bhi)"
  unfolding fancy_search_def by (rule fancy_outer_ok) (auto simp: search_ok_def)

text \<open>
  \<open>_fancy_replace\<close> and \<open>_fancy_helper\<close>. When \<open>best_ratio\<close> is below the cutoff the
  pair synchronised on is the identical pair \<open>(eqi, eqj)\<close>, otherwise it is
  \<open>(best_i, best_j)\<close> and the identical pair is forgotten. The branch \<open>None\<close> of the
  inner case stands for reading \<open>best_i\<close> before assignment; by \<open>fancy_search_ok\<close> it
  is never taken.
\<close>

function fancy_replace :: "string list \<Rightarrow> nat \<Rightarrow> nat \<Rightarrow> string list \<Rightarrow> nat \<Rightarrow> nat \<Rightarrow> string list"
  and fancy_helper :: "string list \<Rightarrow> nat \<Rightarrow> nat \<Rightarrow> string list \<Rightarrow> nat \<Rightarrow> nat \<Rightarrow> string list" where
  "fancy_replace a alo ahi b blo bhi =
     (case fancy_search a alo ahi b blo bhi of
        (best_ratio, best, eq) \<Rightarrow>
          if best_ratio < cutoff \<and> eq = None then plain_replace a alo ahi b blo bhi
          else
            (case (if best_ratio < cutoff then eq else best) of
               None \<Rightarrow> []
             | Some (best_i, best_j) \<Rightarrow>
                 fancy_helper a alo best_i b blo best_j
                 @ (if best_ratio < cutoff then [''  '' @ a ! best_i]
                    else
                      (case intraline_tags (get_opcodes (a ! best_i) (b ! best_j)) [] [] of
                         (atags, btags) \<Rightarrow> qformat (a ! best_i) (b ! best_j) atags btags))
                 @ fancy_helper a (best_i + 1) ahi b (best_j + 1) bhi))"
| "fancy_helper a alo ahi b blo bhi =
     (if alo < ahi
      then (if blo < bhi then fancy_replace a alo ahi b blo bhi else dump CHR ''-'' a alo ahi)
      else if blo < bhi then dump CHR ''+'' b blo bhi
      else [])"
  by pat_completeness auto
termination
proof (relation "measure (\<lambda>x. case x of
      Inl (a, alo, ahi, b, blo, bhi) \<Rightarrow> 2 * ((ahi - alo) + (bhi - blo)) + 1
    | Inr (a, alo, ahi, b, blo, bhi) \<Rightarrow> 2 * ((ahi - alo) + (bhi - blo)) + 2)", goal_cases)
  case 1
  show ?case by simp
next
  case (2 a alo ahi b blo bhi best_ratio y best eq sync best_i best_j)
  have "search_ok a alo ahi b blo bhi (best_ratio, best, eq)"
    using fancy_search_ok[of a alo ahi b blo bhi] 2(1,2) by simp
  then have "alo \<le> best_i \<and> best_i < ahi \<and> blo \<le> best_j \<and> best_j < bhi"
    using 2(4,5) by (auto simp: search_ok_def split: if_splits)
  then show ?case by simp arith
next
  case (3 a alo ahi b blo bhi best_ratio y best eq sync best_i best_j)
  have "search_ok a alo ahi b blo bhi (best_ratio, best, eq)"
    using fancy_search_ok[of a alo ahi b blo bhi] 3(1,2) by simp
  then have "alo \<le> best_i \<and> best_i < ahi \<and> blo \<le> best_j \<and> best_j < bhi"
    using 3(4,5) by (auto simp: search_ok_def split: if_splits)
  then show ?case by simp arith
next
  case 4
  then show ?case by simp
qed

declare fancy_replace.simps [simp del] fancy_helper.simps [simp del]

text \<open>
  \<open>compare\<close>: the lines of each opcode of the token matcher, concatenated in order.
\<close>

fun compare_opcode :: "string list \<Rightarrow> string list \<Rightarrow> opcode \<Rightarrow> string list" where
  "compare_opcode a b (Replace, alo, ahi, blo, bhi) = fancy_replace a alo ahi b blo bhi"
| "compare_opcode a b (Delete, alo, ahi, blo, bhi) = dump CHR ''-'' a alo ahi"
| "compare_opcode a b (Insert, alo, ahi, blo, bhi) = dump CHR ''+'' b blo bhi"
| "compare_opcode a b (Equal, alo, ahi, blo, bhi) = dump CHR '' '' a alo ahi"

definition compare :: "string list \<Rightarrow> string list \<Rightarrow> string list" where
  "compare a b = concat (map (compare_opcode a b) (get_opcodes a b))"

section \<open>app.py: the edit counter and the highlighted rendering\<close>

text \<open>
  The dataclass \<open>EditMetrics\<close>. \<open>edit_time\<close> is a Python float, a difference of two
  readings of \<open>time.time()\<close>; clock readings and their differences are modelled as
  exact rationals.
\<close>

record EditMetrics =
  segment_id :: int
  original :: string
  edited :: string
  edit_time :: rat
  insertions :: nat
  deletions :: nat

definition calculate_edit_distance :: "string \<Rightarrow> string \<Rightarrow> nat \<times> nat" where
  "calculate_edit_distance orig edit =
     (let diff = compare (str_split orig) (str_split edit);
          ins = length (filter (\<lambda>d. startswith d ''+'') diff);
          dels = length (filter (\<lambda>d. startswith d ''-'') diff)
      in (ins, dels))"

text \<open>The three kinds of fragment that \<open>highlight_differences\<close> appends.\<close>

definition span_plain :: "string \<Rightarrow> string" where
  \<open>span_plain t = ''<span>'' @ t @ ''</span>''\<close>

definition span_removed :: "string \<Rightarrow> string" where
  \<open>span_removed t = ''<span style="background-color: #ffcdd2">'' @ t @ ''</span>''\<close>

definition span_added :: "string \<Rightarrow> string" where
  \<open>span_added t = ''<span style="background-color: #c8e6c9">'' @ t @ ''</span>''\<close>

text \<open>
  The body of the loop \<open>for word in diff\<close>: the fragments appended for one line of the
  diff (none for a line that starts with none of the three prefixes).
\<close>

definition html_part :: "string \<Rightarrow> string list" where
  "html_part word =
     (if startswith word ''  '' then [span_plain (drop 2 word)]
      else if startswith word ''- '' then [span_removed (drop 2 word)]
      else if startswith word ''+ '' then [span_added (drop 2 word)]
      else [])"

definition html_parts :: "string \<Rightarrow> string \<Rightarrow> string list" where
  "html_parts orig edit = concat (map html_part (compare (str_split orig) (str_split edit)))"

definition highlight_differences :: "string \<Rightarrow> string \<Rightarrow> string" where
  "highlight_differences orig edit = join '' '' (html_parts orig edit)"

text \<open>The exceptions that the script can raise.\<close>

datatype pyexn = StreamlitAPIException | IndexError | TypeError | KeyError

section \<open>app.py: the results\<close>

subsection \<open>Sums of float64 columns\<close>

text \<open>
  \<open>round_half_even\<close> is the integer nearest to a rational, a tie going to the even one.
  A float64 is modelled by the rational it denotes. \<open>float_round\<close> is the float nearest
  to a rational, a tie going to the even significand: the significand is an integer of
  53 bits at the exponent \<open>float_exponent\<close>, which is not below -1074 (the subnormal
  numbers). Overflow to infinity is left out: the times of a session are far from it.
\<close>

definition round_half_even :: "rat \<Rightarrow> int" where
  "round_half_even q =
     (let f = \<lfloor>q\<rfloor>; d = q - of_int f
      in if d < 1 / 2 then f else if d > 1 / 2 then f + 1 else if even f then f else f + 1)"

definition pow2 :: "int \<Rightarrow> rat" where
  "pow2 e = (if 0 \<le> e then 2 ^ nat e else 1 / 2 ^ nat (- e))"

definition float_exponent :: "rat \<Rightarrow> int" where
  "float_exponent x =
     (case quotient_of \<bar>x\<bar> of
        (p, q) \<Rightarrow>
          let d = bitlen p - bitlen q;
              l = (if pow2 d \<le> \<bar>x\<bar> then d else d - 1)
          in max (l - 52) (- 1074))"

definition float_round :: "rat \<Rightarrow> rat" where
  "float_round x =
     (if x = 0 then 0
      else of_int (round_half_even (x / pow2 (float_exponent x))) * pow2 (float_exponent x))"

text \<open>The float64 operations \<open>x + y\<close> and \<open>x / y\<close>: the exact result, rounded.\<close>

definition float_add :: "rat \<Rightarrow> rat \<Rightarrow> rat" where
  "float_add x y = float_round (x + y)"

definition float_div :: "rat \<Rightarrow> rat \<Rightarrow> rat" where
  "float_div x y = float_round (x / y)"

text \<open>
  \<open>df['edit_time'].sum()\<close> is numpy's sum of the float64 column. Its loop
  \<open>pairwise_sum\<close> adds fewer than 8 values one by one in row order; up to 128 values it
  keeps 8 running sums over the rows taken 8 at a time, adds them pairwise and then
  adds the remaining rows; a longer column is split in two parts, the first of a
  length that is a multiple of 8, and the sums of the parts are added. The result is
  added to the initial value 0.
\<close>

definition block_sums :: "rat list \<Rightarrow> rat list \<Rightarrow> rat list" where
  "block_sums r block = map (\<lambda>k. float_add (r ! k) (block ! k)) [0..<8]"

fun blocks_of_8 :: "nat \<Rightarrow> rat list \<Rightarrow> rat list list" where
  "blocks_of_8 0 a = []"
| "blocks_of_8 (Suc m) a = take 8 a # blocks_of_8 m (drop 8 a)"

function pairwise_sum :: "rat list \<Rightarrow> rat" where
  "pairwise_sum a =
     (let n = length a
      in if n < 8 then foldl float_add 0 a
         else if n \<le> 128
         then
           let r = foldl block_sums (take 8 a) (blocks_of_8 (n div 8 - 1) (drop 8 a));
               res = float_add
                       (float_add (float_add (r ! 0) (r ! 1)) (float_add (r ! 2) (r ! 3)))
                       (float_add (float_add (r ! 4) (r ! 5)) (float_add (r ! 6) (r ! 7)))
           in foldl float_add res (drop (n - n mod 8) a)
         else
           let n2 = n div 2 - (n div 2) mod 8
           in float_add (pairwise_sum (take n2 a)) (pairwise_sum (drop n2 a)))"
  by pat_completeness auto
termination
  by (relation "measure length") auto

declare pairwise_sum.simps [simp del]

definition column_sum :: "rat list \<Rightarrow> rat" where
  "column_sum a = float_add 0 (pairwise_sum a)"

subsection \<open>\<open>display_results\<close>\<close>

text \<open>
  The figures \<open>display_results\<close> shows. \<open>pd.DataFrame([])\<close> has no columns, so
  \<open>df['edit_time']\<close> raises \<open>KeyError\<close> when there is no record. \<open>total_time\<close> is the
  float64 sum of the column and \<open>average_time\<close> its mean, the sum divided by the number
  of rows; the two other totals are sums of integers. \<open>src/src/app.py\<close> shows the same
  five figures and the sum of the last two.
\<close>

record summary =
  total_segments :: nat
  total_time :: rat
  average_time :: rat
  total_insertions :: int
  total_deletions :: int

definition display_results :: "EditMetrics list \<Rightarrow> pyexn + summary" where
  "display_results ms =
     (if ms = [] then Inl KeyError
      else Inr \<lparr>total_segments = length ms,
                total_time = column_sum (map edit_time ms),
                average_time = float_div (column_sum (map edit_time ms)) (of_nat (length ms)),
                total_insertions = int (sum_list (map insertions ms)),
                total_deletions = int (sum_list (map deletions ms))\<rparr>)"

text \<open>The exception a call raises, if it raises one.\<close>

definition raised_by :: "pyexn + 'a \<Rightarrow> pyexn option" where
  "raised_by r = (case r of Inl e \<Rightarrow> Some e | Inr v \<Rightarrow> None)"

section \<open>app.py: the session and one run of the script\<close>

text \<open>
  \<open>st.session_state\<close> after \<open>init_session_state\<close>: the four keys the script uses.
\<close>

record session_state =
  current_segment :: int
  segments :: "string list"
  edit_metrics :: "EditMetrics list"
  start_time :: "rat option"

definition init_session_state :: session_state where
  "init_session_state =
     \<lparr>current_segment = 0, segments = [], edit_metrics = [], start_time = None\<rparr>"

text \<open>
  \<open>save_metrics\<close>; \<open>now\<close> is the value \<open>time.time()\<close> returns inside it.
\<close>

definition save_metrics :: "rat \<Rightarrow> string \<Rightarrow> string \<Rightarrow> session_state \<Rightarrow> session_state" where
  "save_metrics now orig edit st =
     (case start_time st of
        None \<Rightarrow> st
      | Some t0 \<Rightarrow>
          (case calculate_edit_distance orig edit of
             (ins, dels) \<Rightarrow>
               st\<lparr>edit_metrics :=
                    edit_metrics st
                    @ [\<lparr>segment_id = current_segment st, original = orig, edited = edit,
                        edit_time = now - t0, insertions = ins, deletions = dels\<rparr>]\<rparr>))"

text \<open>\<open>s.strip()\<close> and \<open>s.split('\n')\<close>, used by \<open>load_segments\<close>.\<close>

definition strip :: "string \<Rightarrow> string" where
  "strip s = dropWhile isspace (rstrip s)"

fun split_lines :: "string \<Rightarrow> string \<Rightarrow> string list" where
  "split_lines cur [] = [cur]"
| "split_lines cur (c # cs) =
     (if c = CHR 0x0A then cur # split_lines [] cs else split_lines (cur @ [c]) cs)"

text \<open>
  \<open>load_segments\<close>; the argument is the decoded content of the uploaded file, \<open>None\<close>
  when no file is uploaded.
\<close>

definition load_segments :: "string option \<Rightarrow> string list" where
  "load_segments uploaded =
     (case uploaded of
        None \<Rightarrow> []
      | Some content \<Rightarrow> filter (\<lambda>l. l \<noteq> []) (map strip (split_lines [] content)))"

text \<open>
  What the widgets return in one run of the script: the uploaded file, the option the
  select box returns, the text of the text area, whether each button was clicked, and
  the readings of \<open>time.time()\<close> where the segment is shown and inside \<open>save_metrics\<close>.
  A disabled button returns \<open>False\<close>.
\<close>

record widgets =
  uploaded_file :: "string option"
  segment_select :: nat
  edit_area :: string
  prev_segment :: bool
  next_segment :: bool
  time_shown :: rat
  time_saved :: rat

text \<open>
  How a run ends: the script returns, calls \<open>st.rerun()\<close>, or raises. The session state
  is mutated in place, so the changes made before a rerun or an exception stay.
\<close>

datatype outcome = Done | Rerun | Raised pyexn

text \<open>
  \<open>main\<close> of \<open>src/app.py\<close>. \<open>st.selectbox\<close> raises when \<open>index\<close> is not a position of
  \<open>options\<close>. After \<open>Next\<close> the script does not rerun: it shows the results when
  every segment is done and falls through to the statistics block, where
  \<open>time.time() - None\<close> raises when the text was edited.
\<close>

definition main :: "widgets \<Rightarrow> session_state \<Rightarrow> session_state \<times> outcome" where
  "main w st =
     (if uploaded_file w \<noteq> None \<and> length (segments st) = 0
      then (st\<lparr>segments := load_segments (uploaded_file w)\<rparr>, Rerun)
      else if segments st = [] then (st, Done)
      else if \<not> (0 \<le> current_segment st \<and> current_segment st < int (length (segments st)))
      then (st, Raised StreamlitAPIException)
      else
        let st1 = st\<lparr>current_segment := int (segment_select w)\<rparr>
        in if \<not> segment_select w < length (segments st1) then (st1, Raised IndexError)
           else
             let current_text = segments st1 ! segment_select w;
                 st2 = (if start_time st1 = None then st1\<lparr>start_time := Some (time_shown w)\<rparr>
                        else st1);
                 edited_text = edit_area w
             in if prev_segment w \<and> \<not> current_segment st2 = 0
                then
                  let st3 = save_metrics (time_saved w) current_text edited_text st2
                  in (st3\<lparr>current_segment := current_segment st3 - 1, start_time := None\<rparr>,
                      Rerun)
                else
                  let st3 =
                        (if next_segment w
                            \<and> \<not> current_segment st2 \<ge> int (length (segments st2))
                         then
                           let st' = save_metrics (time_saved w) current_text edited_text st2
                           in st'\<lparr>current_segment := current_segment st' + 1,
                                  start_time := None\<rparr>
                         else st2)
                  in case (if current_segment st3 \<ge> int (length (segments st3))
                           then raised_by (display_results (edit_metrics st3)) else None) of
                       Some e \<Rightarrow> (st3, Raised e)
                     | None \<Rightarrow>
                         if edited_text \<noteq> current_text \<and> start_time st3 = None
                         then (st3, Raised TypeError)
                         else (st3, Done))"

text \<open>
  \<open>main\<close> of \<open>src/src/app.py\<close>: it returns once every segment is done, \<open>Next\<close> is never
  disabled, and both buttons rerun.
\<close>

definition main_src :: "widgets \<Rightarrow> session_state \<Rightarrow> session_state \<times> outcome" where
  "main_src w st =
     (if uploaded_file w \<noteq> None \<and> length (segments st) = 0
      then (st\<lparr>segments := load_segments (uploaded_file w)\<rparr>, Rerun)
      else if segments st = [] then (st, Done)
      else if current_segment st \<ge> int (length (segments st))
      then (case raised_by (display_results (edit_metrics st)) of
              Some e \<Rightarrow> (st, Raised e)
            | None \<Rightarrow> (st, Done))
      else if \<not> 0 \<le> current_segment st then (st, Raised StreamlitAPIException)
      else
        let st1 = st\<lparr>current_segment := int (segment_select w)\<rparr>
        in if \<not> segment_select w < length (segments st1) then (st1, Raised IndexError)
           else
             let current_text = segments st1 ! segment_select w;
                 st2 = (if start_time st1 = None then st1\<lparr>start_time := Some (time_shown w)\<rparr>
                        else st1);
                 edited_text = edit_area w
             in if prev_segment w \<and> \<not> current_segment st2 = 0
                then
                  let st3 = save_metrics (time_saved w) current_text edited_text st2
                  in (st3\<lparr>current_segment := current_segment st3 - 1, start_time := None\<rparr>,
                      Rerun)
                else if next_segment w
                then
                  let st3 = save_metrics (time_saved w) current_text edited_text st2
                  in (st3\<lparr>current_segment := current_segment st3 + 1, start_time := None\<rparr>,
                      Rerun)
                else (st2, Done))"

text \<open>A sequence of runs, each on the state the previous one left.\<close>

definition runs :: "(widgets \<Rightarrow> session_state \<Rightarrow> session_state \<times> outcome) \<Rightarrow> widgets list
    \<Rightarrow> session_state \<Rightarrow> session_state" where
  "runs script ws st = foldl (\<lambda>s w. fst (script w s)) st ws"

section \<open>app.py: the exports\<close>

text \<open>
  The data frame \<open>pd.DataFrame([vars(m) for m in ...])\<close>: its column names, the fields
  of the dataclass in their order, and one row per record; without records it has no
  column. \<open>csv_table\<close> is the table that \<open>display_results\<close> of \<open>src/app.py\<close> hands to
  \<open>df.to_csv(index=False)\<close>, reached only when \<open>df['edit_time']\<close> has not raised;
  \<open>csv_table_src\<close> is the one of \<open>src/src/app.py\<close>, where \<open>df.drop\<close> removes the column
  \<open>segment_id\<close> first and raises when there is none. Writing the table out as text is
  pandas' part.
\<close>

datatype cell = IntCell int | StrCell string | FloatCell rat

definition dataframe :: "EditMetrics list \<Rightarrow> string list \<times> cell list list" where
  "dataframe ms =
     (if ms = [] then ([], [])
      else
        ([''segment_id'', ''original'', ''edited'', ''edit_time'', ''insertions'',
          ''deletions''],
         map (\<lambda>m. [IntCell (segment_id m), StrCell (original m), StrCell (edited m),
                    FloatCell (edit_time m), IntCell (int (insertions m)),
                    IntCell (int (deletions m))]) ms))"

definition drop_column :: "string \<Rightarrow> string list \<times> cell list list \<Rightarrow> string list \<times> cell list list" where
  "drop_column c df =
     (case df of
        (columns, rows) \<Rightarrow>
          (let keep = (\<lambda>row. map snd (filter (\<lambda>(n, v). n \<noteq> c) (zip columns row)))
           in (filter (\<lambda>n. n \<noteq> c) columns, map keep rows)))"

definition csv_table :: "EditMetrics list \<Rightarrow> pyexn + string list \<times> cell list list" where
  "csv_table ms = (if ms = [] then Inl KeyError else Inr (dataframe ms))"

definition csv_table_src :: "EditMetrics list \<Rightarrow> pyexn + string list \<times> cell list list" where
  "csv_table_src ms =
     (if ''segment_id'' \<notin> set (fst (dataframe ms)) then Inl KeyError
      else Inr (drop_column ''segment_id'' (dataframe ms)))"

text \<open>
  \<open>round(x, 2)\<close>: the nearest multiple of 0.01, a tie going to the even one. On a float
  Python rounds the binary value; here the value is the rational itself.
\<close>

definition round2 :: "rat \<Rightarrow> rat" where
  "round2 q = of_int (round_half_even (q * 100)) / 100"

text \<open>
  The list \<open>json_data\<close> handed to \<open>json.dumps\<close>: one dictionary per record. (It is
  built after the figures are shown, so only when there is a record.)
\<close>

datatype json = JInt int | JStr string | JFloat rat

definition json_data :: "EditMetrics list \<Rightarrow> (string \<times> json) list list" where
  "json_data ms =
     map (\<lambda>metric.
            [(''segment_id'', JInt (segment_id metric)),
             (''source'', JStr (original metric)),
             (''post_edited'', JStr (edited metric)),
             (''edit_time_seconds'', JFloat (round2 (edit_time metric))),
             (''insertions'', JInt (int (insertions metric))),
             (''deletions'', JInt (int (deletions metric)))]) ms"

section \<open>pages/3\_Evaluation.py\<close>

text \<open>\<open>str(n)\<close> of a length: its decimal digits.\<close>

fun str_nat :: "nat \<Rightarrow> string" where
  "str_nat n =
     (if n < 10 then [''0123456789'' ! n]
      else str_nat (n div 10) @ [''0123456789'' ! (n mod 10)])"

declare str_nat.simps [simp del]

text \<open>
  \<open>calculate_metrics\<close> calls the three scorers of sacrebleu, which are parameters here.
\<close>

record 's sacrebleu =
  corpus_bleu :: "string list \<Rightarrow> string list list \<Rightarrow> 's"
  corpus_chrf :: "string list \<Rightarrow> string list list \<Rightarrow> 's"
  corpus_ter :: "string list \<Rightarrow> string list list \<Rightarrow> 's"

definition calculate_metrics :: "'s sacrebleu \<Rightarrow> string list \<Rightarrow> string list \<Rightarrow> 's \<times> 's \<times> 's" where
  "calculate_metrics sb references hypotheses =
     (corpus_bleu sb hypotheses [references],
      corpus_chrf sb hypotheses [references],
      corpus_ter sb hypotheses [references])"

text \<open>
  The part of \<open>main\<close> that follows the loading of the references and of the
  post-edited translations of the selected user: an error message, the scores, or
  nothing while the button has not been clicked.
\<close>

datatype 's evaluation = Error string | Scores "'s \<times> 's \<times> 's" | Idle

definition evaluate :: "'s sacrebleu \<Rightarrow> string \<Rightarrow> string list \<Rightarrow> string list \<Rightarrow> bool \<Rightarrow> 's evaluation" where
  "evaluate sb selected_user references post_edited clicked =
     (if post_edited = []
      then Error (''No post-edited translations found for '' @ selected_user @ ''.'')
      else if length references \<noteq> length post_edited
      then Error (''Number of reference translations ('' @ str_nat (length references)
                  @ '') does not match number of post-edited translations (''
                  @ str_nat (length post_edited) @ '')'')
      else if clicked then Scores (calculate_metrics sb references post_edited)
      else Idle)"

section \<open>Properties of \<open>save_metrics\<close>\<close>

text \<open>Two sessions used as concrete inputs: one with no timer, one with a timer.\<close>

definition idle_session :: session_state where
  "idle_session =
     \<lparr>current_segment = 1, segments = [''a b'', ''c d''], edit_metrics = [], start_time = None\<rparr>"

definition timed_session :: session_state where
  "timed_session = idle_session\<lparr>start_time := Some 10\<rparr>"

text \<open>
  C10. When no timer is running (\<open>start_time\<close> is \<open>None\<close>) \<open>save_metrics\<close> leaves the
  session exactly as it was. When a timer is running it appends exactly one record,
  whose \<open>segment_id\<close> is the current segment, and changes no other part of the session.
\<close>

theorem save_metrics_frame:
  "(start_time st = None \<longrightarrow> save_metrics now orig edit st = st)
   \<and> (start_time st \<noteq> None \<longrightarrow>
        (\<exists>m. save_metrics now orig edit st = st\<lparr>edit_metrics := edit_metrics st @ [m]\<rparr>
             \<and> segment_id m = current_segment st))"
proof (cases "start_time st")
  case None
  then show ?thesis by (simp add: save_metrics_def)
next
  case (Some t0)
  obtain ins dels where c: "calculate_edit_distance orig edit = (ins, dels)"
    by (cases "calculate_edit_distance orig edit") auto
  let ?m = "\<lparr>segment_id = current_segment st, original = orig, edited = edit,
             edit_time = now - t0, insertions = ins, deletions = dels\<rparr>"
  have "save_metrics now orig edit st = st\<lparr>edit_metrics := edit_metrics st @ [?m]\<rparr>
        \<and> segment_id ?m = current_segment st"
    using Some c by (simp add: save_metrics_def)
  then have "\<exists>m. save_metrics now orig edit st = st\<lparr>edit_metrics := edit_metrics st @ [m]\<rparr>
        \<and> segment_id m = current_segment st"
    by (rule exI[of _ ?m])
  then show ?thesis using Some by simp
qed

lemma example_edit: "calculate_edit_distance ''c d'' ''c e'' = (1, 1)"
  by code_simp

theorem save_metrics_frame_witness:
  "start_time idle_session = None
   \<and> save_metrics 12 ''c d'' ''c e'' idle_session = idle_session
   \<and> start_time timed_session \<noteq> None
   \<and> save_metrics 12 ''c d'' ''c e'' timed_session
       = timed_session
           \<lparr>edit_metrics :=
              [\<lparr>segment_id = 1, original = ''c d'', edited = ''c e'', edit_time = 2,
                insertions = 1, deletions = 1\<rparr>]\<rparr>"
  using save_metrics_frame[of idle_session 12 "''c d''" "''c e''"]
    save_metrics_frame[of timed_session 12 "''c d''" "''c e''"]
  by (simp add: idle_session_def timed_session_def save_metrics_def example_edit)

section \<open>The worked scenario\<close>

text \<open>
  The file holds the two segments. The runs of the script: the upload, segment 0 shown
  at \<open>t0\<close>, \<open>Next\<close> clicked five seconds later with the text edited, segment 1 shown at
  \<open>t1\<close>, \<open>Next\<close> clicked two seconds later with the text unchanged.
\<close>

definition scenario_file :: string where
  "scenario_file = ''The cat sat.'' @ [CHR 0x0A] @ ''It was sunny.'' @ [CHR 0x0A]"

definition scenario :: "rat \<Rightarrow> rat \<Rightarrow> widgets list" where
  "scenario t0 t1 =
     (let w = \<lparr>uploaded_file = Some scenario_file, segment_select = 0, edit_area = '''',
               prev_segment = False, next_segment = False, time_shown = t0, time_saved = t0\<rparr>
      in [w,
          w\<lparr>edit_area := ''The cat sat.''\<rparr>,
          w\<lparr>edit_area := ''The cat sat on the mat.'', next_segment := True,
            time_saved := t0 + 5\<rparr>,
          w\<lparr>segment_select := 1, edit_area := ''It was sunny.'', time_shown := t1\<rparr>,
          w\<lparr>segment_select := 1, edit_area := ''It was sunny.'', next_segment := True,
            time_shown := t1, time_saved := t1 + 2\<rparr>])"

lemma scenario_segments:
  "load_segments (Some scenario_file) = [''The cat sat.'', ''It was sunny.'']"
  by code_simp

lemma scenario_edit_0:
  "calculate_edit_distance ''The cat sat.'' ''The cat sat on the mat.'' = (4, 1)"
  by code_simp

lemma scenario_edit_1:
  "calculate_edit_distance ''It was sunny.'' ''It was sunny.'' = (0, 0)"
  by code_simp

lemma scenario_main:
  "runs main (scenario t0 t1) init_session_state =
     \<lparr>current_segment = 2, segments = [''The cat sat.'', ''It was sunny.''],
      edit_metrics =
        [\<lparr>segment_id = 0, original = ''The cat sat.'', edited = ''The cat sat on the mat.'',
          edit_time = 5, insertions = 4, deletions = 1\<rparr>,
         \<lparr>segment_id = 1, original = ''It was sunny.'', edited = ''It was sunny.'',
          edit_time = 2, insertions = 0, deletions = 0\<rparr>],
      start_time = None\<rparr>"
  by (simp add: runs_def scenario_def main_def init_session_state_def Let_def save_metrics_def
      scenario_segments scenario_edit_0 scenario_edit_1 raised_by_def display_results_def)

lemma scenario_main_src:
  "runs main_src (scenario t0 t1) init_session_state =
     \<lparr>current_segment = 2, segments = [''The cat sat.'', ''It was sunny.''],
      edit_metrics =
        [\<lparr>segment_id = 0, original = ''The cat sat.'', edited = ''The cat sat on the mat.'',
          edit_time = 5, insertions = 4, deletions = 1\<rparr>,
         \<lparr>segment_id = 1, original = ''It was sunny.'', edited = ''It was sunny.'',
          edit_time = 2, insertions = 0, deletions = 0\<rparr>],
      start_time = None\<rparr>"
  by (simp add: runs_def scenario_def main_src_def init_session_state_def Let_def save_metrics_def
      scenario_segments scenario_edit_0 scenario_edit_1 raised_by_def display_results_def)

lemma scenario_sum: "column_sum [5, 2] = 7 \<and> float_div 7 (of_nat 2) = 7 / 2"
  by code_simp

definition scenario_records :: "(widgets \<Rightarrow> session_state \<Rightarrow> session_state \<times> outcome) \<Rightarrow> rat \<Rightarrow> rat
    \<Rightarrow> EditMetrics list" where
  "scenario_records script t0 t1 = edit_metrics (runs script (scenario t0 t1) init_session_state)"

text \<open>
  C1, as stated: the first record has 3 insertions and 0 deletions. It does not: the
  tokens are split at whitespace only, so \<open>sat.\<close> of the original and \<open>sat\<close> of the edited
  text differ, and the diff replaces one by the other.
\<close>

theorem scenario_claimed_counts_fail:
  "\<not> (insertions (scenario_records main 0 6 ! 0) = 3
      \<and> deletions (scenario_records main 0 6 ! 0) = 0)"
  by (simp add: scenario_records_def scenario_main)

text \<open>
  C1, amended: in the scenario the first record has 4 insertions (\<open>sat\<close>, \<open>on\<close>, \<open>the\<close>,
  \<open>mat.\<close>) and 1 deletion (\<open>sat.\<close>), the second has none of either, the elapsed times
  are 5 and 2, both variants of the script record the same, and the summary counts 2
  segments with a total time of 7.
\<close>

theorem scenario_metrics:
  "map (\<lambda>m. (segment_id m, edit_time m, insertions m, deletions m)) (scenario_records main t0 t1)
     = [(0, 5, 4, 1), (1, 2, 0, 0)]
   \<and> scenario_records main_src t0 t1 = scenario_records main t0 t1
   \<and> display_results (scenario_records main t0 t1)
     = Inr \<lparr>total_segments = 2, total_time = 7, average_time = 7 / 2,
            total_insertions = 4, total_deletions = 1\<rparr>"
  using scenario_sum
  by (simp add: scenario_records_def scenario_main scenario_main_src display_results_def)

section \<open>Navigation\<close>

text \<open>
  A session on its first segment with the timer started at 10, and the widgets of a
  run in which the operator picks the second segment in the select box.
\<close>

definition jump_session :: session_state where
  "jump_session =
     \<lparr>current_segment = 0, segments = [''a b'', ''c d''], edit_metrics = [],
      start_time = Some 10\<rparr>"

definition jump_widgets :: widgets where
  "jump_widgets =
     \<lparr>uploaded_file = None, segment_select = 1, edit_area = ''a x'', prev_segment = False,
      next_segment = False, time_shown = 15, time_saved = 15\<rparr>"

text \<open>
  C2, as stated: selecting another segment records the segment being left and restarts
  the timer. Here nothing is recorded and the timer keeps its reading.
\<close>

theorem jump_records_nothing:
  "edit_metrics (fst (main jump_widgets jump_session)) = []
   \<and> start_time (fst (main jump_widgets jump_session)) = Some 10
   \<and> edit_metrics (fst (main_src jump_widgets jump_session)) = []
   \<and> start_time (fst (main_src jump_widgets jump_session)) = Some 10"
  by (simp add: main_def main_src_def jump_widgets_def jump_session_def Let_def)

text \<open>
  C2, amended: while a segment is active, a run in which the select box returns a
  target and no button is clicked sets the current index to the target and appends no
  record; the segments stay as they are.
\<close>

theorem jump_sets_index:
  assumes "segments st \<noteq> []" "0 \<le> current_segment st"
    and "current_segment st < int (length (segments st))"
    and "segment_select w < length (segments st)"
    and "\<not> prev_segment w" "\<not> next_segment w"
  shows "current_segment (fst (main w st)) = int (segment_select w)
         \<and> edit_metrics (fst (main w st)) = edit_metrics st
         \<and> segments (fst (main w st)) = segments st
         \<and> current_segment (fst (main_src w st)) = int (segment_select w)
         \<and> edit_metrics (fst (main_src w st)) = edit_metrics st
         \<and> segments (fst (main_src w st)) = segments st"
  using assms by (simp add: main_def main_src_def Let_def)

theorem jump_sets_index_witness:
  "segments jump_session \<noteq> [] \<and> 0 \<le> current_segment jump_session
   \<and> current_segment jump_session < int (length (segments jump_session))
   \<and> segment_select jump_widgets < length (segments jump_session)
   \<and> \<not> prev_segment jump_widgets \<and> \<not> next_segment jump_widgets
   \<and> current_segment (fst (main jump_widgets jump_session)) = 1
   \<and> edit_metrics (fst (main jump_widgets jump_session)) = edit_metrics jump_session
   \<and> current_segment (fst (main_src jump_widgets jump_session)) = 1
   \<and> edit_metrics (fst (main_src jump_widgets jump_session)) = edit_metrics jump_session"
  using jump_sets_index[of jump_session jump_widgets]
  by (simp add: jump_session_def jump_widgets_def)

text \<open>
  C4. Once every segment is done (\<open>current_segment\<close> is the number of segments) a run
  changes nothing, whatever is clicked: \<open>src/app.py\<close> stops at the select box with an
  exception, \<open>src/src/app.py\<close> shows the results and returns. On the first segment, with
  the timer running, a click on \<open>Previous\<close> changes nothing either: the button is
  disabled. Records, index and timer are as before.
\<close>

theorem rejected_navigation:
  assumes "segments st \<noteq> []"
  shows "(int (length (segments st)) \<le> current_segment st \<longrightarrow>
            fst (main w st) = st \<and> snd (main w st) = Raised StreamlitAPIException
            \<and> fst (main_src w st) = st \<and> snd (main_src w st) \<noteq> Rerun)
         \<and> (current_segment st = 0 \<and> start_time st \<noteq> None \<and> segment_select w = 0
              \<and> prev_segment w \<and> \<not> next_segment w \<longrightarrow>
            fst (main w st) = st \<and> snd (main w st) = Done \<and> main_src w st = (st, Done))"
  using assms by (auto simp: main_def main_src_def Let_def split: option.splits)

definition done_session :: session_state where
  "done_session =
     jump_session
       \<lparr>current_segment := 2,
        edit_metrics :=
          [\<lparr>segment_id = 0, original = ''a b'', edited = ''a x'', edit_time = 3,
            insertions = 1, deletions = 1\<rparr>,
           \<lparr>segment_id = 1, original = ''c d'', edited = ''c d'', edit_time = 1,
            insertions = 0, deletions = 0\<rparr>],
        start_time := None\<rparr>"

definition next_widgets :: widgets where
  "next_widgets = jump_widgets\<lparr>segment_select := 0, next_segment := True\<rparr>"

definition prev_widgets :: widgets where
  "prev_widgets = jump_widgets\<lparr>segment_select := 0, prev_segment := True\<rparr>"

theorem rejected_navigation_witness:
  "segments done_session \<noteq> [] \<and> int (length (segments done_session)) \<le> current_segment done_session
   \<and> fst (main next_widgets done_session) = done_session
   \<and> main_src next_widgets done_session = (done_session, Done)
   \<and> segments jump_session \<noteq> [] \<and> current_segment jump_session = 0
   \<and> start_time jump_session \<noteq> None \<and> segment_select prev_widgets = 0
   \<and> prev_segment prev_widgets \<and> \<not> next_segment prev_widgets
   \<and> fst (main prev_widgets jump_session) = jump_session
   \<and> main_src prev_widgets jump_session = (jump_session, Done)"
  using rejected_navigation[of done_session next_widgets]
    rejected_navigation[of jump_session prev_widgets]
  by (simp add: done_session_def jump_session_def next_widgets_def prev_widgets_def
      jump_widgets_def main_src_def raised_by_def display_results_def)

subsection \<open>Sequences of transitions\<close>

text \<open>
  The three transitions of the navigator, each with the text of the text area, and the
  widgets of the run that performs one: \<open>Advance\<close> clicks \<open>Next\<close>, \<open>Retreat\<close> clicks
  \<open>Previous\<close>, \<open>Jump\<close> picks a target in the select box. A transition is valid while a
  segment is active; \<open>Retreat\<close> needs a previous segment and \<open>Jump\<close> a target that
  exists. Each transition comes with the two clock readings of its run.
\<close>

datatype action = Advance string | Retreat string | Jump nat string

definition click :: "action \<Rightarrow> rat \<Rightarrow> rat \<Rightarrow> session_state \<Rightarrow> widgets" where
  "click act shown saved st =
     \<lparr>uploaded_file = None,
      segment_select = (case act of Jump k e \<Rightarrow> k | _ \<Rightarrow> nat (current_segment st)),
      edit_area = (case act of Advance e \<Rightarrow> e | Retreat e \<Rightarrow> e | Jump k e \<Rightarrow> e),
      prev_segment = (case act of Retreat e \<Rightarrow> True | _ \<Rightarrow> False),
      next_segment = (case act of Advance e \<Rightarrow> True | _ \<Rightarrow> False),
      time_shown = shown, time_saved = saved\<rparr>"

definition valid :: "action \<Rightarrow> session_state \<Rightarrow> bool" where
  "valid act st =
     (0 \<le> current_segment st \<and> current_segment st < int (length (segments st))
      \<and> (case act of
            Advance e \<Rightarrow> True
          | Retreat e \<Rightarrow> 0 < current_segment st
          | Jump k e \<Rightarrow> k < length (segments st)))"

definition records_edit :: "action \<Rightarrow> bool" where
  "records_edit act = (case act of Jump k e \<Rightarrow> False | _ \<Rightarrow> True)"

fun transitions :: "(widgets \<Rightarrow> session_state \<Rightarrow> session_state \<times> outcome)
    \<Rightarrow> (action \<times> rat \<times> rat) list \<Rightarrow> session_state \<Rightarrow> session_state" where
  "transitions script [] st = st"
| "transitions script ((act, shown, saved) # rest) st =
     transitions script rest (fst (script (click act shown saved st) st))"

fun valid_transitions :: "(widgets \<Rightarrow> session_state \<Rightarrow> session_state \<times> outcome)
    \<Rightarrow> (action \<times> rat \<times> rat) list \<Rightarrow> session_state \<Rightarrow> bool" where
  "valid_transitions script [] st = True"
| "valid_transitions script ((act, shown, saved) # rest) st =
     (valid act st \<and> valid_transitions script rest (fst (script (click act shown saved st) st)))"

lemma save_metrics_appends:
  "start_time st \<noteq> None \<Longrightarrow>
     \<exists>m. save_metrics now orig edit st = st\<lparr>edit_metrics := edit_metrics st @ [m]\<rparr>"
  by (cases "calculate_edit_distance orig edit") (auto simp: save_metrics_def)

lemma main_step_records:
  assumes "valid act st"
  shows "\<exists>new. edit_metrics (fst (main (click act shown saved st) st)) = edit_metrics st @ new
               \<and> length new = (if records_edit act then 1 else 0)"
proof -
  let ?st2 = "if start_time st = None then st\<lparr>start_time := Some shown\<rparr> else st"
  have t: "start_time ?st2 \<noteq> None" by simp
  obtain m where m: "save_metrics saved (segments st ! nat (current_segment st))
      (case act of Advance e \<Rightarrow> e | Retreat e \<Rightarrow> e | Jump k e \<Rightarrow> e) ?st2
      = ?st2\<lparr>edit_metrics := edit_metrics ?st2 @ [m]\<rparr>"
    using save_metrics_appends[OF t] by blast
  show ?thesis
  proof (cases act)
    case (Advance e)
    then show ?thesis using assms m
      by (auto simp: main_def click_def valid_def records_edit_def Let_def split: option.splits)
  next
    case (Retreat e)
    then show ?thesis using assms m
      by (auto simp: main_def click_def valid_def records_edit_def Let_def split: option.splits)
  next
    case (Jump k e)
    then show ?thesis using assms
      by (auto simp: main_def click_def valid_def records_edit_def Let_def split: option.splits)
  qed
qed

lemma main_src_step_records:
  assumes "valid act st"
  shows "\<exists>new. edit_metrics (fst (main_src (click act shown saved st) st)) = edit_metrics st @ new
               \<and> length new = (if records_edit act then 1 else 0)"
proof -
  let ?st2 = "if start_time st = None then st\<lparr>start_time := Some shown\<rparr> else st"
  have t: "start_time ?st2 \<noteq> None" by simp
  obtain m where m: "save_metrics saved (segments st ! nat (current_segment st))
      (case act of Advance e \<Rightarrow> e | Retreat e \<Rightarrow> e | Jump k e \<Rightarrow> e) ?st2
      = ?st2\<lparr>edit_metrics := edit_metrics ?st2 @ [m]\<rparr>"
    using save_metrics_appends[OF t] by blast
  show ?thesis
  proof (cases act)
    case (Advance e)
    then show ?thesis using assms m
      by (auto simp: main_src_def click_def valid_def records_edit_def Let_def)
  next
    case (Retreat e)
    then show ?thesis using assms m
      by (auto simp: main_src_def click_def valid_def records_edit_def Let_def)
  next
    case (Jump k e)
    then show ?thesis using assms
      by (auto simp: main_src_def click_def valid_def records_edit_def Let_def)
  qed
qed

lemma transitions_records:
  assumes step: "\<And>act shown saved st. valid act st \<Longrightarrow>
      \<exists>new. edit_metrics (fst (script (click act shown saved st) st)) = edit_metrics st @ new
            \<and> length new = (if records_edit act then 1 else 0)"
    and "valid_transitions script ts st"
  shows "\<exists>new. edit_metrics (transitions script ts st) = edit_metrics st @ new
               \<and> length new = length (filter (\<lambda>t. records_edit (fst t)) ts)"
  using assms(2)
proof (induction ts arbitrary: st)
  case Nil
  then show ?case by simp
next
  case (Cons t ts)
  obtain act shown saved where t: "t = (act, shown, saved)" by (cases t) auto
  let ?st' = "fst (script (click act shown saved st) st)"
  from Cons.prems t have v: "valid act st" "valid_transitions script ts ?st'" by auto
  from step[OF v(1)] obtain n1 where n1: "edit_metrics ?st' = edit_metrics st @ n1"
    "length n1 = (if records_edit act then 1 else 0)" by blast
  from Cons.IH[OF v(2)] obtain n2 where n2:
    "edit_metrics (transitions script ts ?st') = edit_metrics ?st' @ n2"
    "length n2 = length (filter (\<lambda>t. records_edit (fst t)) ts)" by blast
  have "edit_metrics (transitions script (t # ts) st) = edit_metrics st @ (n1 @ n2)"
    using t n1 n2 by simp
  moreover have "length (n1 @ n2) = length (filter (\<lambda>t. records_edit (fst t)) (t # ts))"
    using t n1 n2 by simp
  ultimately show ?case by blast
qed

lemma save_metrics_Some:
  "start_time st = Some t0 \<Longrightarrow>
     save_metrics now orig edit st =
       st\<lparr>edit_metrics :=
            edit_metrics st
            @ [\<lparr>segment_id = current_segment st, original = orig, edited = edit,
                edit_time = now - t0, insertions = fst (calculate_edit_distance orig edit),
                deletions = snd (calculate_edit_distance orig edit)\<rparr>]\<rparr>"
  by (simp add: save_metrics_def split: prod.splits)

text \<open>A sequence of one transition: a jump to the second segment.\<close>

definition one_jump :: "(action \<times> rat \<times> rat) list" where
  "one_jump = [(Jump 1 ''a b'', 15, 15)]"

text \<open>
  C3, as stated: after every valid transition, a jump included, the number of records
  is the number of transitions so far. After one jump there is no record.
\<close>

theorem one_record_per_transition_fails:
  "valid_transitions main one_jump jump_session
   \<and> length (edit_metrics (transitions main one_jump jump_session)) \<noteq> length one_jump
   \<and> valid_transitions main_src one_jump jump_session
   \<and> length (edit_metrics (transitions main_src one_jump jump_session)) \<noteq> length one_jump"
  by (simp add: one_jump_def valid_def click_def main_def main_src_def jump_session_def Let_def)

text \<open>
  C3, amended: after a sequence of valid transitions the records are those from before
  followed by one new record for each \<open>Advance\<close> and each \<open>Retreat\<close> of the sequence,
  revisits included; a \<open>Jump\<close> adds none, and no record is ever overwritten.
\<close>

theorem one_record_per_button_transition:
  "(valid_transitions main ts st \<longrightarrow>
      (\<exists>new. edit_metrics (transitions main ts st) = edit_metrics st @ new
            \<and> length new = length (filter (\<lambda>t. records_edit (fst t)) ts)))
   \<and> (valid_transitions main_src ts st \<longrightarrow>
      (\<exists>new. edit_metrics (transitions main_src ts st) = edit_metrics st @ new
            \<and> length new = length (filter (\<lambda>t. records_edit (fst t)) ts)))"
  using transitions_records[of main ts st, OF main_step_records]
    transitions_records[of main_src ts st, OF main_src_step_records]
  by blast

definition revisit :: "(action \<times> rat \<times> rat) list" where
  "revisit = [(Advance ''a x'', 10, 12), (Retreat ''c d'', 13, 14), (Jump 1 ''a b'', 15, 15),
              (Retreat ''c y'', 16, 18), (Advance ''a z'', 19, 20)]"

theorem one_record_per_button_transition_witness:
  "valid_transitions main revisit jump_session
   \<and> map segment_id (edit_metrics (transitions main revisit jump_session)) = [0, 1, 1, 0]
   \<and> valid_transitions main_src revisit jump_session
   \<and> map segment_id (edit_metrics (transitions main_src revisit jump_session)) = [0, 1, 1, 0]"
  using one_record_per_button_transition[of revisit jump_session]
  by (simp add: revisit_def valid_def click_def main_def main_src_def jump_session_def Let_def
      save_metrics_Some)

section \<open>Properties of the results\<close>

text \<open>Three records used as concrete inputs.\<close>

definition record_a :: EditMetrics where
  "record_a = \<lparr>segment_id = 0, original = ''a b'', edited = ''a c'', edit_time = 5 / 2,
              insertions = 1, deletions = 1\<rparr>"

definition record_b :: EditMetrics where
  "record_b = \<lparr>segment_id = 1, original = ''c d'', edited = ''c d e'', edit_time = 1 / 3,
              insertions = 1, deletions = 0\<rparr>"









lemma round_half_even_near: "\<bar>of_int (round_half_even q) - q\<bar> \<le> 1 / 2"
proof -
  define f where "f = \<lfloor>q\<rfloor>"
  define d where "d = q - of_int f"
  have d: "0 \<le> d" "d < 1" unfolding d_def f_def by linarith+
  have r: "round_half_even q =
      (if d < 1 / 2 then f else if d > 1 / 2 then f + 1 else if even f then f else f + 1)"
    unfolding round_half_even_def Let_def f_def d_def by (rule refl)
  have q: "q = of_int f + d" by (simp add: d_def)
  have "\<bar>of_int (round_half_even q) - (of_int f + d)\<bar> \<le> 1 / 2"
    unfolding r using d by (auto simp: abs_if)
  then show ?thesis using q by simp
qed

lemma round2_near: "\<bar>round2 q - q\<bar> \<le> 1 / 200 \<and> round2 q * 100 \<in> \<int>"
proof -
  have "\<bar>of_int (round_half_even (q * 100)) - q * 100\<bar> \<le> 1 / 2"
    by (rule round_half_even_near)
  then have "\<bar>round2 q - q\<bar> \<le> 1 / 200" unfolding round2_def by (simp add: abs_if field_simps split: if_splits)
  moreover have "round2 q * 100 \<in> \<int>" unfolding round2_def by simp
  ultimately show ?thesis by simp
qed

lemma dataframe_row_inj:
  "inj (\<lambda>m :: EditMetrics. [IntCell (segment_id m), StrCell (original m), StrCell (edited m),
               FloatCell (edit_time m), IntCell (int (insertions m)),
               IntCell (int (deletions m))])"
  by (rule injI, rule EditMetrics.equality) simp_all

lemma csv_table_inj: "inj csv_table"
proof (rule injI)
  fix ms ms' assume e: "csv_table ms = csv_table ms'"
  show "ms = ms'"
  proof (cases "ms = [] \<or> ms' = []")
    case True
    then show ?thesis using e by (auto simp: csv_table_def split: if_splits)
  next
    case False
    then have "map (\<lambda>m. [IntCell (segment_id m), StrCell (original m), StrCell (edited m),
               FloatCell (edit_time m), IntCell (int (insertions m)),
               IntCell (int (deletions m))]) ms
      = map (\<lambda>m. [IntCell (segment_id m), StrCell (original m), StrCell (edited m),
               FloatCell (edit_time m), IntCell (int (insertions m)),
               IntCell (int (deletions m))]) ms'"
      using e by (simp add: csv_table_def dataframe_def)
    then show ?thesis by (simp only: inj_map_eq_map[OF dataframe_row_inj])
  qed
qed

lemma csv_table_src_eq:
  "ms \<noteq> [] \<Longrightarrow>
     csv_table_src ms =
       Inr ([''original'', ''edited'', ''edit_time'', ''insertions'', ''deletions''],
            map (\<lambda>m. [StrCell (original m), StrCell (edited m), FloatCell (edit_time m),
                       IntCell (int (insertions m)), IntCell (int (deletions m))]) ms)"
  by (simp add: csv_table_src_def dataframe_def drop_column_def)

text \<open>
  C5, as stated: the CSV export has the column \<open>segment_id\<close> and loses nothing. In
  \<open>src/src/app.py\<close> the column is dropped before the export, and two different records
  give the same table.
\<close>

theorem csv_src_drops_segment_id:
  "csv_table_src [record_a]
     = Inr ([''original'', ''edited'', ''edit_time'', ''insertions'', ''deletions''],
            [[StrCell ''a b'', StrCell ''a c'', FloatCell (5 / 2), IntCell 1, IntCell 1]])
   \<and> csv_table_src [record_a\<lparr>segment_id := 7\<rparr>] = csv_table_src [record_a]
   \<and> record_a\<lparr>segment_id := 7\<rparr> \<noteq> record_a"
  by (simp add: csv_table_src_eq record_a_def)

text \<open>
  C5, amended: when there is a record, the table that \<open>src/app.py\<close> exports as CSV has
  the columns \<open>segment_id\<close>, \<open>original\<close>, \<open>edited\<close>, \<open>edit_time\<close>, \<open>insertions\<close>,
  \<open>deletions\<close> and one row per record, and different sequences of records give
  different tables. In \<open>src/src/app.py\<close> the table is the same without the column
  \<open>segment_id\<close>. In both, the JSON export has one object per record with the keys
  \<open>segment_id\<close>, \<open>source\<close>, \<open>post_edited\<close>, \<open>edit_time_seconds\<close>, \<open>insertions\<close>,
  \<open>deletions\<close> and the values of the record, the time rounded to two decimals: a
  multiple of 0.01 at most 0.005 away.
\<close>

theorem csv_json_export:
  assumes "ms \<noteq> []"
  shows "csv_table ms
     = Inr ([''segment_id'', ''original'', ''edited'', ''edit_time'', ''insertions'',
             ''deletions''],
            map (\<lambda>m. [IntCell (segment_id m), StrCell (original m), StrCell (edited m),
                       FloatCell (edit_time m), IntCell (int (insertions m)),
                       IntCell (int (deletions m))]) ms)
   \<and> inj csv_table
   \<and> csv_table_src ms
     = Inr ([''original'', ''edited'', ''edit_time'', ''insertions'', ''deletions''],
            map (\<lambda>m. [StrCell (original m), StrCell (edited m), FloatCell (edit_time m),
                       IntCell (int (insertions m)), IntCell (int (deletions m))]) ms)
   \<and> map (map fst) (json_data ms)
     = map (\<lambda>m. [''segment_id'', ''source'', ''post_edited'', ''edit_time_seconds'',
                  ''insertions'', ''deletions'']) ms
   \<and> map (map snd) (json_data ms)
     = map (\<lambda>m. [JInt (segment_id m), JStr (original m), JStr (edited m),
                  JFloat (round2 (edit_time m)), JInt (int (insertions m)),
                  JInt (int (deletions m))]) ms
   \<and> \<bar>round2 q - q\<bar> \<le> 1 / 200 \<and> round2 q * 100 \<in> \<int>"
  using assms csv_table_inj round2_near[of q]
  by (simp add: csv_table_src_eq csv_table_def dataframe_def json_data_def)

lemma round2_examples: "round2 (5 / 2) = 5 / 2 \<and> round2 (1 / 3) = 33 / 100"
  by code_simp

theorem csv_json_export_witness:
  "[record_a, record_b] \<noteq> []
   \<and> csv_table [record_a, record_b]
     = Inr ([''segment_id'', ''original'', ''edited'', ''edit_time'', ''insertions'',
             ''deletions''],
            [[IntCell 0, StrCell ''a b'', StrCell ''a c'', FloatCell (5 / 2), IntCell 1,
              IntCell 1],
             [IntCell 1, StrCell ''c d'', StrCell ''c d e'', FloatCell (1 / 3), IntCell 1,
              IntCell 0]])
   \<and> map (map snd) (json_data [record_a, record_b])
     = [[JInt 0, JStr ''a b'', JStr ''a c'', JFloat (5 / 2), JInt 1, JInt 1],
        [JInt 1, JStr ''c d'', JStr ''c d e'', JFloat (33 / 100), JInt 1, JInt 0]]"
  using csv_json_export[of "[record_a, record_b]" 0]
  by (simp add: record_a_def record_b_def csv_table_def dataframe_def json_data_def
      round2_examples)

section \<open>Properties of the evaluation page\<close>

text \<open>A scorer used as a concrete input: three constant scores.\<close>

definition no_scorer :: "rat sacrebleu" where
  "no_scorer = \<lparr>corpus_bleu = (\<lambda>h r. 0), corpus_chrf = (\<lambda>h r. 0), corpus_ter = (\<lambda>h r. 0)\<rparr>"

text \<open>
  C8, as stated: whenever the two lengths differ the error shown names both counts.
  With one reference and no post-edited translation the error shown is another one.
\<close>

theorem mismatch_message_not_always:
  "length [''r1''] \<noteq> length ([] :: string list)
   \<and> evaluate no_scorer ''Ann Lee'' [''r1''] [] True
      = Error ''No post-edited translations found for Ann Lee.''"
  by (simp add: evaluate_def)

text \<open>
  C8, amended: the scorers are called only when the references and the post-edited
  translations have the same length (and the button was clicked). When the lengths
  differ and there is a post-edited translation, the error names both counts; when
  there is no post-edited translation, the error says that none was found for the
  user. In both cases no score is computed.
\<close>

theorem scoring_needs_equal_lengths:
  "(evaluate sb user references post_edited clicked = Scores x \<longrightarrow>
      length references = length post_edited \<and> clicked
      \<and> x = calculate_metrics sb references post_edited)
   \<and> (length references \<noteq> length post_edited \<and> post_edited \<noteq> [] \<longrightarrow>
      evaluate sb user references post_edited clicked
      = Error (''Number of reference translations ('' @ str_nat (length references)
               @ '') does not match number of post-edited translations (''
               @ str_nat (length post_edited) @ '')''))
   \<and> (post_edited = [] \<longrightarrow>
      evaluate sb user references post_edited clicked
      = Error (''No post-edited translations found for '' @ user @ ''.''))"
  by (auto simp: evaluate_def)

theorem scoring_needs_equal_lengths_witness:
  "evaluate no_scorer ''Ann Lee'' [''r1'', ''r2''] [''h1'', ''h2''] True = Scores (0, 0, 0)
   \<and> length [''r1'', ''r2''] = length [''h1'', ''h2'']
   \<and> length [''r1'', ''r2'', ''r3''] \<noteq> length [''h1'', ''h2''] \<and> [''h1'', ''h2''] \<noteq> []
   \<and> evaluate no_scorer ''Ann Lee'' [''r1'', ''r2'', ''r3''] [''h1'', ''h2''] True
      = Error ''Number of reference translations (3) does not match number of post-edited translations (2)''
   \<and> evaluate no_scorer ''Ann Lee'' [''r1''] [] True
      = Error ''No post-edited translations found for Ann Lee.''"
  using scoring_needs_equal_lengths[of no_scorer "''Ann Lee''" "[''r1'', ''r2'']" "[''h1'', ''h2'']" True "(0, 0, 0)"]
    scoring_needs_equal_lengths[of no_scorer "''Ann Lee''" "[''r1'', ''r2'', ''r3'']" "[''h1'', ''h2'']" True "(0, 0, 0)"]
    scoring_needs_equal_lengths[of no_scorer "''Ann Lee''" "[''r1'']" "[]" True "(0, 0, 0)"]
  by (simp add: evaluate_def calculate_metrics_def no_scorer_def str_nat.simps)

section \<open>Properties of the edit counter\<close>

subsection \<open>One side empty\<close>

lemma find_longest_match_empty_b: "find_longest_match a b alo ahi blo blo = (i, j, k) \<Longrightarrow> k = 0"
  using find_longest_match_good[of a b alo ahi blo blo] by (auto simp: good_match_iff)

lemma find_longest_match_empty_a: "find_longest_match a b alo alo blo bhi = (i, j, k) \<Longrightarrow> k = 0"
  using find_longest_match_good[of a b alo alo blo bhi] by (auto simp: good_match_iff)

lemma get_opcodes_empty_b:
  "get_opcodes a [] = (if 0 < length a then [(Delete, 0, length a, 0, 0)] else [])"
proof -
  obtain i j k where f: "find_longest_match a [] 0 (length a) 0 0 = (i, j, k)"
    by (cases "find_longest_match a [] 0 (length a) 0 0") auto
  then have "k = 0" by (rule find_longest_match_empty_b)
  then have "matching_loop a [] [(0, length a, 0, 0)] [] = []" using f by simp
  then show ?thesis by (simp add: get_opcodes_def get_matching_blocks_def)
qed

lemma get_opcodes_empty_a:
  "get_opcodes [] b = (if 0 < length b then [(Insert, 0, 0, 0, length b)] else [])"
proof -
  obtain i j k where f: "find_longest_match [] b 0 0 0 (length b) = (i, j, k)"
    by (cases "find_longest_match [] b 0 0 0 (length b)") auto
  then have "k = 0" by (rule find_longest_match_empty_a)
  then have "matching_loop [] b [(0, 0, 0, length b)] [] = []" using f by simp
  then show ?thesis by (simp add: get_opcodes_def get_matching_blocks_def)
qed

lemma compare_empty_b: "compare a [] = dump CHR ''-'' a 0 (length a)"
  by (simp add: compare_def get_opcodes_empty_b dump_def)

lemma compare_empty_a: "compare [] b = dump CHR ''+'' b 0 (length b)"
  by (simp add: compare_def get_opcodes_empty_a dump_def)

lemma filter_dump:
  "filter (\<lambda>d. startswith d [c]) (dump tg x lo hi) = (if tg = c then dump tg x lo hi else [])"
  by (auto simp: dump_def startswith_def filter_map comp_def)

lemma length_dump: "length (dump tg x lo hi) = hi - lo"
  by (simp add: dump_def)

lemma str_split_empty: "str_split '''' = []"
  by (simp add: str_split_def)

text \<open>
  C6. When the edited text is empty, the deletions are the number of whitespace-split
  tokens of the original and there is no insertion; when the original is empty, the
  insertions are the number of tokens of the edited text and there is no deletion.
  (Neither needs the other side to be non-empty.)
\<close>

theorem edit_distance_one_side_empty:
  "calculate_edit_distance orig '''' = (0, length (str_split orig))
   \<and> calculate_edit_distance '''' edit = (length (str_split edit), 0)"
  by (simp add: calculate_edit_distance_def str_split_empty compare_empty_a compare_empty_b
      filter_dump length_dump)

subsection \<open>The diff keeps both token lists\<close>

text \<open>
  \<open>slice x lo hi\<close> is \<open>x[lo:hi]\<close>. A line of the diff is a tag character, a space and a
  text (\<open>diff_line\<close>). \<open>a_side\<close> reads the tokens of the lines tagged equal or deleted,
  \<open>b_side\<close> those of the lines tagged equal or inserted; \<open>sides_ok\<close> says that the lines
  written for two ranges spell out exactly these ranges.
\<close>

definition slice :: "'a list \<Rightarrow> nat \<Rightarrow> nat \<Rightarrow> 'a list" where
  "slice x lo hi = map ((!) x) [lo..<hi]"

lemma slice_empty [simp]: "hi \<le> lo \<Longrightarrow> slice x lo hi = []"
  by (simp add: slice_def)

lemma slice_split: "lo \<le> mid \<Longrightarrow> mid \<le> hi \<Longrightarrow> slice x lo hi = slice x lo mid @ slice x mid hi"
  unfolding slice_def by (metis le_Suc_ex map_append upt_add_eq_append)

lemma slice_single: "slice x i (Suc i) = [x ! i]"
  by (simp add: slice_def)

lemma slice_all: "slice x 0 (length x) = x"
  by (simp add: slice_def map_nth)

lemma slice_cong: "\<forall>d<k. a ! (i + d) = b ! (j + d) \<Longrightarrow> slice a i (i + k) = slice b j (j + k)"
proof (induction k)
  case 0
  then show ?case by simp
next
  case (Suc k)
  have "slice a i (i + Suc k) = slice a i (i + k) @ [a ! (i + k)]"
    using slice_split[of i "i + k" "i + Suc k" a] by (simp add: slice_single)
  moreover have "slice b j (j + Suc k) = slice b j (j + k) @ [b ! (j + k)]"
    using slice_split[of j "j + k" "j + Suc k" b] by (simp add: slice_single)
  ultimately show ?case using Suc by simp
qed

definition diff_line :: "string \<Rightarrow> bool" where
  "diff_line l \<longleftrightarrow> (\<exists>c t. l = c # CHR '' '' # t \<and> c \<in> {CHR '' '', CHR ''-'', CHR ''+'', CHR ''?''})"

definition a_side :: "string list \<Rightarrow> string list" where
  "a_side ls = map (drop 2) (filter (\<lambda>l. startswith l ''  '' \<or> startswith l ''- '') ls)"

definition b_side :: "string list \<Rightarrow> string list" where
  "b_side ls = map (drop 2) (filter (\<lambda>l. startswith l ''  '' \<or> startswith l ''+ '') ls)"

definition sides_ok :: "string list \<Rightarrow> nat \<Rightarrow> nat \<Rightarrow> string list \<Rightarrow> nat \<Rightarrow> nat \<Rightarrow> string list \<Rightarrow> bool" where
  "sides_ok a alo ahi b blo bhi ls \<longleftrightarrow>
     a_side ls = slice a alo ahi \<and> b_side ls = slice b blo bhi \<and> (\<forall>l\<in>set ls. diff_line l)"

lemma a_side_append [simp]: "a_side (xs @ ys) = a_side xs @ a_side ys"
  by (simp add: a_side_def)

lemma b_side_append [simp]: "b_side (xs @ ys) = b_side xs @ b_side ys"
  by (simp add: b_side_def)

lemma sides_Nil [simp]: "a_side [] = []" "b_side [] = []"
  by (simp_all add: a_side_def b_side_def)

lemma a_side_dump:
  "a_side (dump tg x lo hi) = (if tg = CHR '' '' \<or> tg = CHR ''-'' then slice x lo hi else [])"
  by (auto simp: a_side_def dump_def startswith_def slice_def filter_map comp_def)

lemma b_side_dump:
  "b_side (dump tg x lo hi) = (if tg = CHR '' '' \<or> tg = CHR ''+'' then slice x lo hi else [])"
  by (auto simp: b_side_def dump_def startswith_def slice_def filter_map comp_def)

lemma diff_line_dump:
  "tg \<in> {CHR '' '', CHR ''-'', CHR ''+'', CHR ''?''} \<Longrightarrow> l \<in> set (dump tg x lo hi) \<Longrightarrow> diff_line l"
  by (auto simp: dump_def diff_line_def)

lemma sides_qformat:
  "a_side (qformat aline bline atags btags) = [aline]
   \<and> b_side (qformat aline bline atags btags) = [bline]
   \<and> (\<forall>l\<in>set (qformat aline bline atags btags). diff_line l)"
  by (auto simp: qformat_def a_side_def b_side_def startswith_def Let_def diff_line_def)

lemma sides_plain_replace:
  "sides_ok a alo ahi b blo bhi (plain_replace a alo ahi b blo bhi)"
  by (auto simp: sides_ok_def plain_replace_def a_side_dump b_side_dump dest: diff_line_dump[rotated])

text \<open>
  \<open>_fancy_replace\<close> writes every token of both ranges, whatever pair it synchronises
  on; by induction on the size of the ranges.
\<close>

lemma sides_ok_dump_minus: "sides_ok a alo ahi b blo blo (dump CHR ''-'' a alo ahi)"
  by (auto simp: sides_ok_def a_side_dump b_side_dump dest: diff_line_dump[rotated])

lemma sides_ok_dump_plus: "sides_ok a alo alo b blo bhi (dump CHR ''+'' b blo bhi)"
  by (auto simp: sides_ok_def a_side_dump b_side_dump dest: diff_line_dump[rotated])

lemma sides_ok_join:
  assumes "sides_ok a alo i b blo j xs" "sides_ok a i (Suc i) b j (Suc j) mid"
    and "sides_ok a (Suc i) ahi b (Suc j) bhi ys"
    and "alo \<le> i" "i < ahi" "blo \<le> j" "j < bhi"
  shows "sides_ok a alo ahi b blo bhi (xs @ mid @ ys)"
proof -
  have "slice a alo ahi = slice a alo i @ slice a i (Suc i) @ slice a (Suc i) ahi"
    using assms(4,5) slice_split[of alo i ahi a] slice_split[of i "Suc i" ahi a] by simp
  moreover have "slice b blo bhi = slice b blo j @ slice b j (Suc j) @ slice b (Suc j) bhi"
    using assms(6,7) slice_split[of blo j bhi b] slice_split[of j "Suc j" bhi b] by simp
  ultimately show ?thesis using assms(1-3) by (auto simp: sides_ok_def)
qed

lemma fancy_replace_sides:
  "sides_ok a alo ahi b blo bhi (fancy_replace a alo ahi b blo bhi)"
proof (induction "(ahi - alo) + (bhi - blo)" arbitrary: alo ahi blo bhi rule: less_induct)
  case less
  have helper: "sides_ok a lo hi b lo' hi' (fancy_helper a lo hi b lo' hi')"
    if "(hi - lo) + (hi' - lo') < (ahi - alo) + (bhi - blo)" for lo hi lo' hi'
  proof (cases "lo < hi")
    case True
    show ?thesis
    proof (cases "lo' < hi'")
      case True
      then show ?thesis using \<open>lo < hi\<close> less.hyps[OF that]
        by (simp add: fancy_helper.simps)
    next
      case False
      then have "slice b lo' hi' = slice b lo' lo'" by simp
      then show ?thesis using \<open>lo < hi\<close> False sides_ok_dump_minus[of a lo hi b lo']
        by (simp add: fancy_helper.simps sides_ok_def)
    qed
  next
    case False
    then have e: "slice a lo hi = slice a lo lo" by simp
    show ?thesis
    proof (cases "lo' < hi'")
      case True
      then show ?thesis using False e sides_ok_dump_plus[of a lo b lo' hi']
        by (simp add: fancy_helper.simps sides_ok_def)
    next
      case nb: False
      then show ?thesis using False by (simp add: fancy_helper.simps sides_ok_def)
    qed
  qed
  obtain best_ratio best eq where fs: "fancy_search a alo ahi b blo bhi = (best_ratio, best, eq)"
    by (cases "fancy_search a alo ahi b blo bhi") auto
  have ok: "search_ok a alo ahi b blo bhi (best_ratio, best, eq)"
    using fancy_search_ok[of a alo ahi b blo bhi] fs by simp
  show ?case
  proof (cases "best_ratio < cutoff \<and> eq = None")
    case True
    then show ?thesis using fs sides_plain_replace
      by (subst fancy_replace.simps) simp
  next
    case False
    have "\<exists>bi bj. (if best_ratio < cutoff then eq else best) = Some (bi, bj)"
    proof (cases "best_ratio < cutoff")
      case True
      then show ?thesis using False by auto
    next
      case nc: False
      then have "best \<noteq> None" using ok by (auto simp: search_ok_def cutoff_def)
      then show ?thesis using nc by auto
    qed
    then obtain bi bj where sync: "(if best_ratio < cutoff then eq else best) = Some (bi, bj)"
      by blast
    have rng: "alo \<le> bi" "bi < ahi" "blo \<le> bj" "bj < bhi"
      using ok sync by (auto simp: search_ok_def split: if_splits)
    have same: "best_ratio < cutoff \<Longrightarrow> a ! bi = b ! bj"
      using ok sync by (auto simp: search_ok_def split: if_splits)
    define mid where "mid =
      (if best_ratio < cutoff then [''  '' @ a ! bi]
       else (case intraline_tags (get_opcodes (a ! bi) (b ! bj)) [] [] of
               (atags, btags) \<Rightarrow> qformat (a ! bi) (b ! bj) atags btags))"
    have m: "sides_ok a bi (Suc bi) b bj (Suc bj) mid"
    proof (cases "best_ratio < cutoff")
      case True
      then show ?thesis using same
        by (simp add: mid_def sides_ok_def a_side_def b_side_def startswith_def slice_single
            diff_line_def)
    next
      case False
      obtain atags btags where t: "intraline_tags (get_opcodes (a ! bi) (b ! bj)) [] [] = (atags, btags)"
        by (cases "intraline_tags (get_opcodes (a ! bi) (b ! bj)) [] []") auto
      show ?thesis using False t sides_qformat[of "a ! bi" "b ! bj" atags btags]
        by (simp add: mid_def sides_ok_def slice_single)
    qed
    have l: "sides_ok a alo bi b blo bj (fancy_helper a alo bi b blo bj)"
      using rng by (intro helper) arith
    have r: "sides_ok a (Suc bi) ahi b (Suc bj) bhi (fancy_helper a (bi + 1) ahi b (bj + 1) bhi)"
    proof -
      have "(ahi - Suc bi) + (bhi - Suc bj) < (ahi - alo) + (bhi - blo)" using rng by arith
      from helper[OF this] show ?thesis by simp
    qed
    have "fancy_replace a alo ahi b blo bhi =
        fancy_helper a alo bi b blo bj @ mid @ fancy_helper a (bi + 1) ahi b (bj + 1) bhi"
      using fs False sync by (subst fancy_replace.simps) (auto simp: mid_def)
    then show ?thesis using sides_ok_join[OF l m r rng] by simp
  qed
qed

text \<open>
  A list of blocks is a \<open>chain\<close> from \<open>(i, j)\<close> when each block starts at or after the
  end of the one before, in both lists, and covers equal elements. Merging adjacent
  blocks keeps a chain.
\<close>

fun chain :: "'a list \<Rightarrow> 'a list \<Rightarrow> nat \<Rightarrow> nat \<Rightarrow> match list \<Rightarrow> bool" where
  "chain a b i j [] = True"
| "chain a b i j ((ai, bj, sz) # rest) =
     (i \<le> ai \<and> j \<le> bj \<and> (\<forall>d<sz. a ! (ai + d) = b ! (bj + d))
      \<and> chain a b (ai + sz) (bj + sz) rest)"

lemma chain_start_mono: "chain a b i j bs \<Longrightarrow> i' \<le> i \<Longrightarrow> j' \<le> j \<Longrightarrow> chain a b i' j' bs"
  by (cases bs) auto

lemma chain_lower: "chain a b i j bs \<Longrightarrow> (x, y, z) \<in> set bs \<Longrightarrow> i \<le> x \<and> j \<le> y"
proof (induction bs arbitrary: i j)
  case Nil
  then show ?case by simp
next
  case (Cons blk bs)
  obtain ai bj sz where blk: "blk = (ai, bj, sz)" by (cases blk) auto
  show ?case
  proof (cases "(x, y, z) = blk")
    case True
    then show ?thesis using Cons.prems blk by simp
  next
    case False
    then have "(x, y, z) \<in> set bs" using Cons.prems by simp
    moreover have "chain a b (ai + sz) (bj + sz) bs" using Cons.prems blk by simp
    ultimately have "ai + sz \<le> x \<and> bj + sz \<le> y" by (rule Cons.IH[rotated])
    moreover have "i \<le> ai" "j \<le> bj" using Cons.prems blk by simp_all
    ultimately show ?thesis by simp
  qed
qed

lemma chain_link:
  "chain a b i j (xs @ [(x, y, 0)]) \<Longrightarrow> chain a b x y ys \<Longrightarrow> chain a b i j (xs @ ys)"
proof (induction xs arbitrary: i j)
  case Nil
  then show ?case by (auto intro: chain_start_mono)
next
  case (Cons blk xs)
  obtain ai bj sz where blk: "blk = (ai, bj, sz)" by (cases blk) auto
  show ?case using Cons blk by simp
qed

lemma chain_prefix: "chain a b i j (xs @ ys) \<Longrightarrow> chain a b i j xs"
proof (induction xs arbitrary: i j)
  case Nil
  then show ?case by simp
next
  case (Cons blk xs)
  obtain ai bj sz where blk: "blk = (ai, bj, sz)" by (cases blk) auto
  show ?case using Cons blk by simp
qed

lemma chain_drop_zero:
  "chain a b i j (xs @ (x, y, 0) # ys) \<Longrightarrow> chain a b i j (xs @ ys)"
proof (induction xs arbitrary: i j)
  case Nil
  then show ?case by (auto intro: chain_start_mono)
next
  case (Cons blk xs)
  obtain ai bj sz where blk: "blk = (ai, bj, sz)" by (cases blk) auto
  show ?case using Cons blk by simp
qed

lemma chain_merge:
  "chain a b i j (xs @ (x, y, k) # (x + k, y + k, k') # ys) \<Longrightarrow>
   chain a b i j (xs @ (x, y, k + k') # ys)"
proof (induction xs arbitrary: i j)
  case Nil
  have m: "a ! (x + d) = b ! (y + d)" if d: "d < k + k'" for d
  proof (cases "d < k")
    case True
    then show ?thesis using Nil by simp
  next
    case False
    then have "d - k < k'" using d by arith
    then have "a ! (x + k + (d - k)) = b ! (y + k + (d - k))" using Nil by simp
    moreover have "x + k + (d - k) = x + d" "y + k + (d - k) = y + d" using False by arith+
    ultimately show ?thesis by simp
  qed
  have "chain a b (x + (k + k')) (y + (k + k')) ys" using Nil by (simp add: add.assoc)
  then show ?case using Nil m by simp
next
  case (Cons blk xs)
  obtain ai bj sz where blk: "blk = (ai, bj, sz)" by (cases blk) auto
  show ?case using Cons blk by simp
qed

lemma collapse_chain:
  "chain a b i j (acc @ cur # rest @ tail) \<Longrightarrow> chain a b i j (collapse rest cur acc @ tail)"
proof (induction rest arbitrary: cur acc)
  case Nil
  obtain i1 j1 k1 where cur: "cur = (i1, j1, k1)" by (cases cur) auto
  show ?case
  proof (cases "k1 = 0")
    case True
    then show ?thesis using Nil cur chain_drop_zero[of a b i j acc i1 j1 tail] by simp
  next
    case False
    then show ?thesis using Nil cur by simp
  qed
next
  case (Cons blk rest)
  obtain i1 j1 k1 where cur: "cur = (i1, j1, k1)" by (cases cur) auto
  obtain i2 j2 k2 where blk: "blk = (i2, j2, k2)" by (cases blk) auto
  show ?case
  proof (cases "i1 + k1 = i2 \<and> j1 + k1 = j2")
    case True
    have "chain a b i j (acc @ (i1, j1, k1) # (i1 + k1, j1 + k1, k2) # (rest @ tail))"
      using Cons.prems cur blk True by simp
    then have "chain a b i j (acc @ (i1, j1, k1 + k2) # rest @ tail)"
      by (rule chain_merge)
    from Cons.IH[OF this] show ?thesis using cur blk True by simp
  next
    case False
    show ?thesis
    proof (cases "k1 = 0")
      case True
      have "chain a b i j (acc @ (i1, j1, 0) # (blk # rest @ tail))"
        using Cons.prems cur True by simp
      then have "chain a b i j (acc @ blk # rest @ tail)" by (rule chain_drop_zero)
      from Cons.IH[OF this] show ?thesis using cur blk False True by auto
    next
      case nz: False
      have "chain a b i j ((acc @ [cur]) @ blk # rest @ tail)" using Cons.prems by simp
      from Cons.IH[OF this] show ?thesis using cur blk False nz by auto
    qed
  qed
qed

text \<open>
  \<open>blocks_rec\<close> is the recursion that the queue of \<open>get_matching_blocks\<close> replaces: the
  blocks left of the longest match, the match, the blocks right of it. It returns a
  chain, hence a sorted list, with the same blocks as the loop; so sorting the result
  of the loop gives \<open>blocks_rec\<close>.
\<close>

function blocks_rec :: "'a list \<Rightarrow> 'a list \<Rightarrow> nat \<Rightarrow> nat \<Rightarrow> nat \<Rightarrow> nat \<Rightarrow> match list" where
  "blocks_rec a b alo ahi blo bhi =
     (case find_longest_match a b alo ahi blo bhi of
        (i, j, k) \<Rightarrow>
          if k \<noteq> 0
          then (if alo < i \<and> blo < j then blocks_rec a b alo i blo j else [])
               @ [(i, j, k)]
               @ (if i + k < ahi \<and> j + k < bhi then blocks_rec a b (i + k) ahi (j + k) bhi
                  else [])
          else [])"
  by pat_completeness auto
termination
proof (relation "measure (\<lambda>(a, b, alo, ahi, blo, bhi). ahi - alo)", goal_cases)
  case 1
  show ?case by simp
next
  case (2 a b alo ahi blo bhi i y j k)
  have "good_match a b alo ahi blo bhi (i, j, k)"
    using find_longest_match_good[of a b alo ahi blo bhi] 2 by simp
  then have "alo \<le> i" "i + k \<le> ahi" using 2(3) by (simp_all add: good_match_iff)
  then show ?case using 2(3) by simp
next
  case (3 a b alo ahi blo bhi i y j k)
  have "good_match a b alo ahi blo bhi (i, j, k)"
    using find_longest_match_good[of a b alo ahi blo bhi] 3 by simp
  then have "alo \<le> i" "i + k \<le> ahi" using 3(3) by (simp_all add: good_match_iff)
  then show ?case using 3(3,4) by auto
qed

declare blocks_rec.simps [simp del]

lemma blocks_rec_chain:
  "alo \<le> ahi \<Longrightarrow> blo \<le> bhi \<Longrightarrow>
     chain a b alo blo (blocks_rec a b alo ahi blo bhi @ [(ahi, bhi, 0)])"
proof (induction "ahi - alo" arbitrary: alo ahi blo bhi rule: less_induct)
  case less
  obtain i j k where f: "find_longest_match a b alo ahi blo bhi = (i, j, k)"
    by (cases "find_longest_match a b alo ahi blo bhi") auto
  have g: "alo \<le> i" "blo \<le> j" "k \<noteq> 0 \<longrightarrow> i + k \<le> ahi \<and> j + k \<le> bhi"
    "\<forall>d<k. a ! (i + d) = b ! (j + d)"
    using find_longest_match_good[of a b alo ahi blo bhi] f by (simp_all add: good_match_iff)
  show ?case
  proof (cases "k = 0")
    case True
    then show ?thesis using f less.prems by (subst blocks_rec.simps) simp
  next
    case False
    define left where "left = (if alo < i \<and> blo < j then blocks_rec a b alo i blo j else [])"
    define right where
      "right = (if i + k < ahi \<and> j + k < bhi then blocks_rec a b (i + k) ahi (j + k) bhi else [])"
    have eq: "blocks_rec a b alo ahi blo bhi = left @ [(i, j, k)] @ right"
      using f False by (subst blocks_rec.simps) (simp add: left_def right_def)
    have l: "chain a b alo blo (left @ [(i, j, 0)])"
    proof (cases "alo < i \<and> blo < j")
      case True
      have "i - alo < ahi - alo" using g False True by arith
      from less.hyps[OF this, of blo j] show ?thesis using True by (simp add: left_def)
    next
      case False
      then show ?thesis using g by (auto simp: left_def)
    qed
    have r: "chain a b (i + k) (j + k) (right @ [(ahi, bhi, 0)])"
    proof (cases "i + k < ahi \<and> j + k < bhi")
      case True
      have "ahi - (i + k) < ahi - alo" using g False True by arith
      from less.hyps[OF this, of "j + k" bhi] show ?thesis using True by (simp add: right_def)
    next
      case nr: False
      then show ?thesis using g False by (auto simp: right_def)
    qed
    have "chain a b i j ((i, j, k) # right @ [(ahi, bhi, 0)])" using g r by simp
    from chain_link[OF l this] show ?thesis using eq by simp
  qed
qed

lemma chain_sorted: "chain a b i j bs \<Longrightarrow> sorted bs"
proof (induction bs arbitrary: i j)
  case Nil
  then show ?case by simp
next
  case (Cons blk bs)
  obtain ai bj sz where blk: "blk = (ai, bj, sz)" by (cases blk) auto
  have c: "chain a b (ai + sz) (bj + sz) bs" using Cons.prems blk by simp
  have "blk \<le> y" if y: "y \<in> set bs" for y
  proof -
    obtain x' y' z' where yy: "y = (x', y', z')" by (cases y) auto
    have "ai + sz \<le> x' \<and> bj + sz \<le> y'" using chain_lower[OF c] y yy by simp
    then show ?thesis unfolding blk yy by (auto simp: less_eq_prod_def)
  qed
  then show ?case using Cons.IH[OF c] by simp
qed

lemma matching_loop_mset:
  "mset (matching_loop a b queue blocks) =
     mset blocks
     + mset (concat (map (\<lambda>(alo, ahi, blo, bhi). blocks_rec a b alo ahi blo bhi) queue))"
proof (induction a b queue blocks rule: matching_loop.induct)
  case (1 a b matching_blocks)
  then show ?case by simp
next
  case (2 a b alo ahi blo bhi queue matching_blocks)
  obtain i j k where f: "find_longest_match a b alo ahi blo bhi = (i, j, k)"
    by (cases "find_longest_match a b alo ahi blo bhi") auto
  show ?case
  proof (cases "k = 0")
    case True
    have "blocks_rec a b alo ahi blo bhi = []"
      using f True by (subst blocks_rec.simps) simp
    then show ?thesis using "2.IH"(2)[OF f[symmetric] refl] True f by simp
  next
    case False
    have eq: "blocks_rec a b alo ahi blo bhi =
        (if alo < i \<and> blo < j then blocks_rec a b alo i blo j else [])
        @ [(i, j, k)]
        @ (if i + k < ahi \<and> j + k < bhi then blocks_rec a b (i + k) ahi (j + k) bhi else [])"
      using f False by (subst blocks_rec.simps) simp
    show ?thesis using "2.IH"(1)[OF f[symmetric] refl False] False f
      by (auto simp: eq)
  qed
qed

lemma sort_matching_loop:
  "sort (matching_loop a b [(0, length a, 0, length b)] []) =
     blocks_rec a b 0 (length a) 0 (length b)"
proof -
  have "chain a b 0 0 (blocks_rec a b 0 (length a) 0 (length b) @ [(length a, length b, 0)])"
    by (rule blocks_rec_chain) simp_all
  then have "sorted (blocks_rec a b 0 (length a) 0 (length b))"
    using chain_prefix chain_sorted by blast
  moreover have "mset (blocks_rec a b 0 (length a) 0 (length b))
      = mset (matching_loop a b [(0, length a, 0, length b)] [])"
    by (simp add: matching_loop_mset del: matching_loop.simps)
  ultimately show ?thesis by (rule properties_for_sort[rotated])
qed

lemma get_matching_blocks_chain:
  "\<exists>cs. get_matching_blocks a b = cs @ [(length a, length b, 0)]
        \<and> chain a b 0 0 (cs @ [(length a, length b, 0)])"
proof -
  let ?bs = "blocks_rec a b 0 (length a) 0 (length b)"
  have "chain a b 0 0 (?bs @ [(length a, length b, 0)])"
    by (rule blocks_rec_chain) simp_all
  then have "chain a b 0 0 ([] @ (0, 0, 0) # ?bs @ [(length a, length b, 0)])" by simp
  then have "chain a b 0 0 (collapse ?bs (0, 0, 0) [] @ [(length a, length b, 0)])"
    by (rule collapse_chain)
  moreover have "get_matching_blocks a b = collapse ?bs (0, 0, 0) [] @ [(length a, length b, 0)]"
    by (simp add: get_matching_blocks_def sort_matching_loop Let_def del: matching_loop.simps)
  ultimately show ?thesis by blast
qed

text \<open>
  The opcodes between and on the blocks of a chain spell out both lists up to the end
  of the chain; \<open>compare\<close> therefore writes every token of \<open>a\<close> on a line tagged equal
  or deleted, every token of \<open>b\<close> on a line tagged equal or inserted, in order.
\<close>

definition lines_of :: "string list \<Rightarrow> string list \<Rightarrow> opcode list \<Rightarrow> string list" where
  "lines_of a b ops = concat (map (compare_opcode a b) ops)"

definition gap_ops :: "nat \<Rightarrow> nat \<Rightarrow> nat \<Rightarrow> nat \<Rightarrow> opcode list" where
  "gap_ops i ai j bj =
     (if i < ai \<and> j < bj then [(Replace, i, ai, j, bj)]
      else if i < ai then [(Delete, i, ai, j, bj)]
      else if j < bj then [(Insert, i, ai, j, bj)]
      else [])"

definition equal_ops :: "nat \<Rightarrow> nat \<Rightarrow> nat \<Rightarrow> opcode list" where
  "equal_ops ai bj sz = (if sz \<noteq> 0 then [(Equal, ai, ai + sz, bj, bj + sz)] else [])"

fun endpos :: "nat \<Rightarrow> nat \<Rightarrow> match list \<Rightarrow> nat \<times> nat" where
  "endpos i j [] = (i, j)"
| "endpos i j ((ai, bj, sz) # rest) = endpos (ai + sz) (bj + sz) rest"

lemma opcodes_loop_step:
  "opcodes_loop ((ai, bj, sz) # rest) i j answer =
     opcodes_loop rest (ai + sz) (bj + sz) (answer @ gap_ops i ai j bj @ equal_ops ai bj sz)"
  by (simp add: gap_ops_def equal_ops_def Let_def)

lemma lines_of_append: "lines_of a b (xs @ ys) = lines_of a b xs @ lines_of a b ys"
  by (simp add: lines_of_def)

lemma gap_sides:
  assumes "i \<le> ai" "j \<le> bj"
  shows "sides_ok a i ai b j bj (lines_of a b (gap_ops i ai j bj))"
proof (cases "i < ai")
  case True
  show ?thesis
  proof (cases "j < bj")
    case True
    then show ?thesis using \<open>i < ai\<close> fancy_replace_sides
      by (simp add: gap_ops_def lines_of_def)
  next
    case False
    then have "bj = j" using assms by simp
    then show ?thesis using \<open>i < ai\<close> sides_ok_dump_minus[of a i ai b j]
      by (simp add: gap_ops_def lines_of_def)
  qed
next
  case False
  then have e: "ai = i" using assms by simp
  show ?thesis
  proof (cases "j < bj")
    case True
    then show ?thesis using e sides_ok_dump_plus[of a i b j bj]
      by (simp add: gap_ops_def lines_of_def)
  next
    case False
    then show ?thesis using e by (simp add: gap_ops_def lines_of_def sides_ok_def)
  qed
qed

lemma equal_sides:
  assumes "\<forall>d<sz. a ! (ai + d) = b ! (bj + d)"
  shows "sides_ok a ai (ai + sz) b bj (bj + sz) (lines_of a b (equal_ops ai bj sz))"
proof (cases "sz = 0")
  case True
  then show ?thesis by (simp add: equal_ops_def lines_of_def sides_ok_def)
next
  case False
  have "slice a ai (ai + sz) = slice b bj (bj + sz)" using assms by (rule slice_cong)
  then show ?thesis using False
    by (auto simp: equal_ops_def lines_of_def sides_ok_def a_side_dump b_side_dump
        dest: diff_line_dump[rotated])
qed

lemma chain_endpos:
  "chain a b i j bs \<Longrightarrow> i \<le> fst (endpos i j bs) \<and> j \<le> snd (endpos i j bs)"
proof (induction bs arbitrary: i j)
  case Nil
  then show ?case by simp
next
  case (Cons blk bs)
  obtain ai bj sz where blk: "blk = (ai, bj, sz)" by (cases blk) auto
  have "chain a b (ai + sz) (bj + sz) bs" using Cons.prems blk by simp
  from Cons.IH[OF this] show ?case using Cons.prems blk by simp
qed

lemma endpos_snoc: "endpos i j (bs @ [(x, y, z)]) = (x + z, y + z)"
  by (induction bs arbitrary: i j) auto

lemma opcodes_loop_sides:
  assumes "chain a b i j bs"
  shows "a_side (lines_of a b (opcodes_loop bs i j answer))
           = a_side (lines_of a b answer) @ slice a i (fst (endpos i j bs))
       \<and> b_side (lines_of a b (opcodes_loop bs i j answer))
           = b_side (lines_of a b answer) @ slice b j (snd (endpos i j bs))
       \<and> ((\<forall>l\<in>set (lines_of a b answer). diff_line l) \<longrightarrow>
            (\<forall>l\<in>set (lines_of a b (opcodes_loop bs i j answer)). diff_line l))"
  using assms
proof (induction bs arbitrary: i j answer)
  case Nil
  then show ?case by simp
next
  case (Cons blk bs)
  obtain ai bj sz where blk: "blk = (ai, bj, sz)" by (cases blk) auto
  have c: "i \<le> ai" "j \<le> bj" "\<forall>d<sz. a ! (ai + d) = b ! (bj + d)"
    "chain a b (ai + sz) (bj + sz) bs"
    using Cons.prems blk by simp_all
  let ?answer' = "answer @ gap_ops i ai j bj @ equal_ops ai bj sz"
  note ih = Cons.IH[OF c(4), of ?answer']
  note g = gap_sides[OF c(1,2), of a b, unfolded sides_ok_def]
  note e = equal_sides[OF c(3), unfolded sides_ok_def]
  have le: "ai + sz \<le> fst (endpos (ai + sz) (bj + sz) bs)"
    "bj + sz \<le> snd (endpos (ai + sz) (bj + sz) bs)"
    using chain_endpos[OF c(4)] by simp_all
  have sa: "slice a i (fst (endpos (ai + sz) (bj + sz) bs))
      = slice a i ai @ slice a ai (ai + sz) @ slice a (ai + sz) (fst (endpos (ai + sz) (bj + sz) bs))"
    using slice_split[of i ai "fst (endpos (ai + sz) (bj + sz) bs)" a]
      slice_split[of ai "ai + sz" "fst (endpos (ai + sz) (bj + sz) bs)" a] c(1) le by simp
  have sb: "slice b j (snd (endpos (ai + sz) (bj + sz) bs))
      = slice b j bj @ slice b bj (bj + sz) @ slice b (bj + sz) (snd (endpos (ai + sz) (bj + sz) bs))"
    using slice_split[of j bj "snd (endpos (ai + sz) (bj + sz) bs)" b]
      slice_split[of bj "bj + sz" "snd (endpos (ai + sz) (bj + sz) bs)" b] c(2) le by simp
  show ?case
    unfolding blk opcodes_loop_step endpos.simps
    using ih g e by (auto simp: lines_of_append sa sb)
qed

lemma compare_sides:
  "a_side (compare a b) = a \<and> b_side (compare a b) = b \<and> (\<forall>l\<in>set (compare a b). diff_line l)"
proof -
  obtain cs where cs: "get_matching_blocks a b = cs @ [(length a, length b, 0)]"
    "chain a b 0 0 (cs @ [(length a, length b, 0)])"
    using get_matching_blocks_chain by blast
  have "compare a b = lines_of a b (opcodes_loop (cs @ [(length a, length b, 0)]) 0 0 [])"
    by (simp add: compare_def lines_of_def get_opcodes_def cs(1))
  then show ?thesis
    using opcodes_loop_sides[OF cs(2), of "[]"]
    by (simp add: endpos_snoc slice_all lines_of_def)
qed

subsection \<open>The highlighted rendering\<close>

text \<open>
  A fragment is a token with its mark; \<open>render\<close> is the markup \<open>highlight_differences\<close>
  writes for it, and \<open>line_fragment\<close> the fragment of one line of the diff.
\<close>

datatype mark = Unmarked | Removed | Added

fun render :: "mark \<times> string \<Rightarrow> string" where
  "render (Unmarked, t) = span_plain t"
| "render (Removed, t) = span_removed t"
| "render (Added, t) = span_added t"

definition line_fragment :: "string \<Rightarrow> (mark \<times> string) list" where
  "line_fragment l =
     (if startswith l ''  '' then [(Unmarked, drop 2 l)]
      else if startswith l ''- '' then [(Removed, drop 2 l)]
      else if startswith l ''+ '' then [(Added, drop 2 l)]
      else [])"

lemma html_part_render: "html_part = (\<lambda>l. map render (line_fragment l))"
  by (rule ext) (simp add: html_part_def line_fragment_def)

lemma line_cases:
  obtains "l = []" | x where "l = [x]" | x y t where "l = x # y # t"
  by (cases l; cases "tl l") auto

lemma line_fragment_sides:
  "map snd (filter (\<lambda>f. fst f \<noteq> Added) (line_fragment l)) = a_side [l]
   \<and> map snd (filter (\<lambda>f. fst f \<noteq> Removed) (line_fragment l)) = b_side [l]"
  by (cases l rule: line_cases)
    (simp_all add: line_fragment_def a_side_def b_side_def startswith_def)

lemma line_fragment_counts:
  assumes "diff_line l"
  shows "length (filter (\<lambda>f. fst f = Added) (line_fragment l))
           = length (filter (\<lambda>d. startswith d ''+'') [l])
       \<and> length (filter (\<lambda>f. fst f = Removed) (line_fragment l))
           = length (filter (\<lambda>d. startswith d ''-'') [l])"
proof -
  obtain c t where l: "l = c # CHR '' '' # t"
    and c: "c = CHR '' '' \<or> c = CHR ''-'' \<or> c = CHR ''+'' \<or> c = CHR ''?''"
    using assms unfolding diff_line_def by blast
  from c show ?thesis
    by (elim disjE) (simp_all add: l line_fragment_def startswith_def)
qed

lemma fragments_sides:
  "map snd (filter (\<lambda>f. fst f \<noteq> Added) (concat (map line_fragment ls))) = a_side ls
   \<and> map snd (filter (\<lambda>f. fst f \<noteq> Removed) (concat (map line_fragment ls))) = b_side ls"
proof (induction ls)
  case Nil
  then show ?case by simp
next
  case (Cons l ls)
  have "a_side (l # ls) = a_side [l] @ a_side ls" "b_side (l # ls) = b_side [l] @ b_side ls"
    using a_side_append[of "[l]" ls] b_side_append[of "[l]" ls] by simp_all
  then show ?case using Cons line_fragment_sides[of l] by simp
qed

lemma fragments_counts:
  "\<forall>l\<in>set ls. diff_line l \<Longrightarrow>
     length (filter (\<lambda>f. fst f = Added) (concat (map line_fragment ls)))
       = length (filter (\<lambda>d. startswith d ''+'') ls)
     \<and> length (filter (\<lambda>f. fst f = Removed) (concat (map line_fragment ls)))
       = length (filter (\<lambda>d. startswith d ''-'') ls)"
proof (induction ls)
  case Nil
  then show ?case by simp
next
  case (Cons l ls)
  have d: "diff_line l" using Cons.prems by simp
  have r: "\<forall>l\<in>set ls. diff_line l" using Cons.prems by simp
  have "filter (\<lambda>d. startswith d ''+'') (l # ls)
      = filter (\<lambda>d. startswith d ''+'') [l] @ filter (\<lambda>d. startswith d ''+'') ls"
    "filter (\<lambda>d. startswith d ''-'') (l # ls)
      = filter (\<lambda>d. startswith d ''-'') [l] @ filter (\<lambda>d. startswith d ''-'') ls"
    by simp_all
  then show ?case using Cons.IH[OF r] line_fragment_counts[OF d] by simp
qed

lemma render_inj: "inj render"
proof (rule injI)
  fix x y :: "mark \<times> string"
  assume e: "render x = render y"
  obtain m t where x: "x = (m, t)" by (cases x) auto
  obtain m' t' where y: "y = (m', t')" by (cases y) auto
  show "x = y" using e unfolding x y
    by (cases m; cases m') (simp_all add: span_plain_def span_removed_def span_added_def)
qed

text \<open>
  C9. What \<open>highlight_differences\<close> returns is the markup of a sequence of fragments
  joined by single spaces. The fragments are determined by their markup, and read in
  order: the tokens unmarked or marked removed are the whitespace-split
  tokens of the original, the tokens unmarked or marked added are those of the edited
  text, and the numbers of fragments marked added and marked removed are the
  insertions and the deletions that \<open>calculate_edit_distance\<close> returns.
\<close>

theorem highlight_consistent_with_counts:
  "inj render
   \<and> (\<exists>frags. highlight_differences orig edit = join '' '' (map render frags)
     \<and> html_parts orig edit = map render frags
     \<and> map snd (filter (\<lambda>f. fst f \<noteq> Added) frags) = str_split orig
     \<and> map snd (filter (\<lambda>f. fst f \<noteq> Removed) frags) = str_split edit
     \<and> calculate_edit_distance orig edit
       = (length (filter (\<lambda>f. fst f = Added) frags),
          length (filter (\<lambda>f. fst f = Removed) frags)))"
proof -
  let ?ls = "compare (str_split orig) (str_split edit)"
  let ?frags = "concat (map line_fragment ?ls)"
  note s = compare_sides[of "str_split orig" "str_split edit"]
  have d: "\<forall>l\<in>set ?ls. diff_line l" using s by simp
  have h: "html_parts orig edit = map render ?frags"
    by (simp add: html_parts_def html_part_render map_concat comp_def)
  then have "highlight_differences orig edit = join '' '' (map render ?frags)"
    by (simp add: highlight_differences_def)
  moreover note h
  moreover have "map snd (filter (\<lambda>f. fst f \<noteq> Added) ?frags) = str_split orig"
    using s fragments_sides[of ?ls] by simp
  moreover have "map snd (filter (\<lambda>f. fst f \<noteq> Removed) ?frags) = str_split edit"
    using s fragments_sides[of ?ls] by simp
  moreover have "calculate_edit_distance orig edit
       = (length (filter (\<lambda>f. fst f = Added) ?frags),
          length (filter (\<lambda>f. fst f = Removed) ?frags))"
    using fragments_counts[OF d] by (simp add: calculate_edit_distance_def Let_def)
  ultimately show ?thesis using render_inj by blast
qed

end
